theory Spec2Isabelle
  imports Complex_Main "HOL-Library.Multiset" "HOL-Library.Log_Nat"
begin

section \<open>Data structures\<close>

text \<open>
  The two programs (\<^verbatim>\<open>load_balancer.c\<close> and \<^verbatim>\<open>load_balancer_interactive.c\<close>) share
  the server, graph and heap code word for word; the interactive one adds edge validation
  and console input. Array indices and server identifiers used as indices are natural
  numbers; the identifiers typed in by the operator for \<^verbatim>\<open>addEdge\<close> are integers, since
  negative ones have to be rejected.

  A C \<^verbatim>\<open>float\<close> is a rational number. The heap and the two scans only compare and copy
  loads, so nothing is rounded there. The arithmetic of the load balancing functions is
  given twice: with exact results (\<^verbatim>\<open>calculateAverageLoad\<close>, \<^verbatim>\<open>getLoadPercentage\<close>,
  \<^verbatim>\<open>rebalanceLoads\<close>, \<^verbatim>\<open>assignTask\<close>), and as the machine computes it in binary32
  (the same names ending in \<open>_f32\<close>), where every operation on floats rounds its exact
  result. Infinities, NaN and division by a zero capacity are outside this development.
\<close>

record Server =
  id_srv :: nat
  capacity :: rat
  currentLoad :: rat

record Graph =
  numServers :: int
  adjList :: "int list list"

record HeapNode =
  serverId :: nat
  load :: rat

text \<open>
  \<^verbatim>\<open>arr\<close> is the allocated array (its length is the allocation size), of which the first
  \<^verbatim>\<open>size\<close> cells are the heap; the cells behind them keep whatever was written last.
\<close>

record MinHeap =
  arr :: "HeapNode list"
  size_h :: nat
  capacity_h :: nat

section \<open>Graph functions (interactive variant)\<close>

definition createGraph :: "int \<Rightarrow> Graph" where
  "createGraph n = \<lparr>numServers = n, adjList = replicate (nat n) []\<rparr>"

text \<open>The \<^verbatim>\<open>while (current != NULL)\<close> walk along one adjacency list.\<close>

fun edgeExists_walk :: "int list \<Rightarrow> int \<Rightarrow> int" where
  "edgeExists_walk [] dest = 0"
| "edgeExists_walk (current # rest) dest =
     (if current = dest then 1 else edgeExists_walk rest dest)"

definition edgeExists :: "Graph \<Rightarrow> int \<Rightarrow> int \<Rightarrow> int" where
  "edgeExists graph src dest = edgeExists_walk (adjList graph ! nat src) dest"

text \<open>\<^verbatim>\<open>addEdge\<close> returns its status (1 added, 0 rejected) together with the graph.\<close>

definition addEdge :: "Graph \<Rightarrow> int \<Rightarrow> int \<Rightarrow> int \<times> Graph" where
  "addEdge graph src dest =
     (if src < 0 \<or> src \<ge> numServers graph \<or> dest < 0 \<or> dest \<ge> numServers graph
      then (0, graph)
      else if src = dest then (0, graph)
      else if edgeExists graph src dest \<noteq> 0 then (0, graph)
      else (1, graph\<lparr>adjList := (adjList graph)[nat src := dest # adjList graph ! nat src]\<rparr>))"

definition graph_wf :: "Graph \<Rightarrow> bool" where
  "graph_wf graph \<longleftrightarrow> 0 \<le> numServers graph \<and> length (adjList graph) = nat (numServers graph)"

section \<open>Console input (interactive variant)\<close>

text \<open>
  Standard input is the list of characters still unread. \<^verbatim>\<open>clearBuffer\<close> reads up to
  and including the next newline, or to the end of the input.
\<close>

fun clearBuffer :: "string \<Rightarrow> string" where
  "clearBuffer [] = []"
| "clearBuffer (c # cs) = (if c = CHR 0x0A then cs else clearBuffer cs)"

text \<open>
  \<^verbatim>\<open>getYesNoInput\<close> returns the answer, the unread input and the number of rejected
  attempts (each prints an error and prompts again). At the end of the input
  \<^verbatim>\<open>scanf\<close> fails on every iteration and the loop never leaves: the result is \<open>None\<close>.
\<close>

function getYesNoInput :: "string \<Rightarrow> (char \<times> string \<times> nat) option" where
  "getYesNoInput [] = None"
| "getYesNoInput (response # cs) =
     (let rest = clearBuffer cs;
          response' = (if response = CHR ''Y'' \<or> response = CHR ''y'' then CHR ''Y''
                       else if response = CHR ''N'' \<or> response = CHR ''n'' then CHR ''N''
                       else CHR ''?'')
      in if response' = CHR ''?''
         then map_option (\<lambda>(r, inp, k). (r, inp, Suc k)) (getYesNoInput rest)
         else Some (response', rest, 0))"
  by pat_completeness auto
termination
proof (relation "measure length")
  show "wf (measure length)" by simp
next
  fix response :: char and cs x xa
  assume "x = clearBuffer cs"
  moreover have "length (clearBuffer ys) \<le> length ys" for ys
    by (induction ys) auto
  ultimately show "(x, response # cs) \<in> measure length"
    by (simp add: less_Suc_eq_le)
qed

section \<open>Min-heap functions\<close>

text \<open>
  \<^verbatim>\<open>malloc\<close> leaves the cells indeterminate; no cell is read before it is written, and
  the model fills them with a fixed node.
\<close>

definition createMinHeap :: "nat \<Rightarrow> MinHeap" where
  "createMinHeap cap =
     \<lparr>arr = replicate cap \<lparr>serverId = 0, load = 0\<rparr>, size_h = 0, capacity_h = cap\<rparr>"

definition swap_nodes :: "MinHeap \<Rightarrow> nat \<Rightarrow> nat \<Rightarrow> MinHeap" where
  "swap_nodes heap a b = heap\<lparr>arr := (arr heap)[a := arr heap ! b, b := arr heap ! a]\<rparr>"

function heapifyUp :: "MinHeap \<Rightarrow> nat \<Rightarrow> MinHeap" where
  "heapifyUp heap index =
     (if index = 0 then heap
      else let parentIdx = (index - 1) div 2
           in if load (arr heap ! index) < load (arr heap ! parentIdx)
              then heapifyUp (swap_nodes heap index parentIdx) parentIdx
              else heap)"
  by pat_completeness auto
termination
  by (relation "measure snd") auto

function heapifyDown :: "MinHeap \<Rightarrow> nat \<Rightarrow> MinHeap" where
  "heapifyDown heap index =
     (let leftChild = 2 * index + 1;
          rightChild = 2 * index + 2;
          smallest = (if leftChild < size_h heap \<and>
                         load (arr heap ! leftChild) < load (arr heap ! index)
                      then leftChild else index);
          smallest = (if rightChild < size_h heap \<and>
                         load (arr heap ! rightChild) < load (arr heap ! smallest)
                      then rightChild else smallest)
      in if smallest \<noteq> index
         then heapifyDown (swap_nodes heap index smallest) smallest
         else heap)"
  by pat_completeness auto
termination
  by (relation "measure (\<lambda>(heap, index). size_h heap - index)")
     (auto simp: swap_nodes_def split: if_splits)

definition insertHeap :: "MinHeap \<Rightarrow> nat \<Rightarrow> rat \<Rightarrow> MinHeap" where
  "insertHeap heap sid l =
     (if size_h heap \<ge> capacity_h heap then heap
      else let heap1 = heap\<lparr>arr := (arr heap)[size_h heap := \<lparr>serverId = sid, load = l\<rparr>]\<rparr>;
               heap2 = heapifyUp heap1 (size_h heap1)
           in heap2\<lparr>size_h := size_h heap2 + 1\<rparr>)"

text \<open>
  \<^verbatim>\<open>extractMin\<close> has no guard for the empty heap: there it reads \<^verbatim>\<open>arr[-1]\<close>, which is
  undefined behaviour, modelled as \<open>None\<close>.
\<close>

definition extractMin :: "MinHeap \<Rightarrow> (HeapNode \<times> MinHeap) option" where
  "extractMin heap =
     (if size_h heap = 0 then None
      else let m = arr heap ! 0;
               heap1 = heap\<lparr>arr := (arr heap)[0 := arr heap ! (size_h heap - 1)]\<rparr>;
               heap2 = heap1\<lparr>size_h := size_h heap1 - 1\<rparr>
           in Some (m, if size_h heap2 > 0 then heapifyDown heap2 0 else heap2))"

text \<open>The search loop of \<^verbatim>\<open>updateHeap\<close>: the first index holding the server, if any.\<close>

function findIndex :: "MinHeap \<Rightarrow> nat \<Rightarrow> nat \<Rightarrow> nat option" where
  "findIndex heap sid i =
     (if i < size_h heap
      then (if serverId (arr heap ! i) = sid then Some i else findIndex heap sid (i + 1))
      else None)"
  by pat_completeness auto
termination
  by (relation "measure (\<lambda>(heap, sid, i). size_h heap - i)") auto

definition updateHeap :: "MinHeap \<Rightarrow> nat \<Rightarrow> rat \<Rightarrow> MinHeap" where
  "updateHeap heap sid newLoad =
     (case findIndex heap sid 0 of
        None \<Rightarrow> heap
      | Some index \<Rightarrow>
          let heap1 = heap\<lparr>arr := (arr heap)[index := (arr heap ! index)\<lparr>load := newLoad\<rparr>]\<rparr>;
              parentIdx = (index - 1) div 2
          in if index > 0 \<and> load (arr heap1 ! index) < load (arr heap1 ! parentIdx)
             then heapifyUp heap1 index
             else heapifyDown heap1 index)"

section \<open>Load balancing functions\<close>

text \<open>\<^verbatim>\<open>numServers\<close> is the length of the server array in every call of the two programs.\<close>

function sumLoads :: "Server list \<Rightarrow> nat \<Rightarrow> rat \<Rightarrow> rat" where
  "sumLoads servers i totalLoad =
     (if i < length servers
      then sumLoads servers (i + 1) (totalLoad + currentLoad (servers ! i))
      else totalLoad)"
  by pat_completeness auto
termination
  by (relation "measure (\<lambda>(servers, i, t). length servers - i)") auto

definition calculateAverageLoad :: "Server list \<Rightarrow> rat" where
  "calculateAverageLoad servers = sumLoads servers 0 0 / of_nat (length servers)"

definition getLoadPercentage :: "Server \<Rightarrow> rat" where
  "getLoadPercentage server = (currentLoad server / capacity server) * 100"

function mostLoaded_loop :: "Server list \<Rightarrow> nat \<Rightarrow> nat \<Rightarrow> rat \<Rightarrow> nat" where
  "mostLoaded_loop servers i mostLoaded maxLoad =
     (if i < length servers
      then (if currentLoad (servers ! i) > maxLoad
            then mostLoaded_loop servers (i + 1) i (currentLoad (servers ! i))
            else mostLoaded_loop servers (i + 1) mostLoaded maxLoad)
      else mostLoaded)"
  by pat_completeness auto
termination
  by (relation "measure (\<lambda>(servers, i, m, l). length servers - i)") auto

definition findMostLoadedServer :: "Server list \<Rightarrow> nat" where
  "findMostLoadedServer servers = mostLoaded_loop servers 1 0 (currentLoad (servers ! 0))"

function leastLoaded_loop :: "Server list \<Rightarrow> nat \<Rightarrow> nat \<Rightarrow> rat \<Rightarrow> nat" where
  "leastLoaded_loop servers i leastLoaded minLoad =
     (if i < length servers
      then (if currentLoad (servers ! i) < minLoad
            then leastLoaded_loop servers (i + 1) i (currentLoad (servers ! i))
            else leastLoaded_loop servers (i + 1) leastLoaded minLoad)
      else leastLoaded)"
  by pat_completeness auto
termination
  by (relation "measure (\<lambda>(servers, i, m, l). length servers - i)") auto

definition findLeastLoadedServer :: "Server list \<Rightarrow> nat" where
  "findLeastLoadedServer servers = leastLoaded_loop servers 1 0 (currentLoad (servers ! 0))"

text \<open>The value of the local variable \<^verbatim>\<open>imbalance\<close> of \<^verbatim>\<open>rebalanceLoads\<close>.\<close>

definition imbalance :: "Server list \<Rightarrow> rat" where
  "imbalance servers =
     (let mostLoadedIdx = findMostLoadedServer servers;
          leastLoadedIdx = findLeastLoadedServer servers;
          mostLoadedPercent = getLoadPercentage (servers ! mostLoadedIdx);
          leastLoadedPercent = getLoadPercentage (servers ! leastLoadedIdx)
      in mostLoadedPercent - leastLoadedPercent)"

text \<open>The value of the local variable \<^verbatim>\<open>migrationAmount\<close>.\<close>

definition migrationAmount :: "Server list \<Rightarrow> rat" where
  "migrationAmount servers =
     (currentLoad (servers ! findMostLoadedServer servers) - calculateAverageLoad servers) * (1 / 2)"

text \<open>\<^verbatim>\<open>servers[i].currentLoad += x\<close>.\<close>

definition addLoad :: "Server list \<Rightarrow> nat \<Rightarrow> rat \<Rightarrow> Server list" where
  "addLoad servers i x = servers[i := (servers ! i)\<lparr>currentLoad := currentLoad (servers ! i) + x\<rparr>]"

text \<open>
  \<^verbatim>\<open>rebalanceLoads\<close> reads \<^verbatim>\<open>servers[0]\<close> without a guard; with no server that is out of
  bounds, modelled as \<open>None\<close>. The statement \<^verbatim>\<open>currentLoad -= migrationAmount\<close> is the
  addition of the negated amount.
\<close>

definition rebalanceLoads :: "Server list \<Rightarrow> rat \<Rightarrow> MinHeap \<Rightarrow> (Server list \<times> MinHeap) option" where
  "rebalanceLoads servers threshold heap =
     (if servers = [] then None
      else let mostLoadedIdx = findMostLoadedServer servers;
               leastLoadedIdx = findLeastLoadedServer servers
           in if imbalance servers > threshold
              then let m = migrationAmount servers;
                       servers1 = addLoad servers mostLoadedIdx (- m);
                       servers2 = addLoad servers1 leastLoadedIdx m;
                       heap1 = updateHeap heap mostLoadedIdx (currentLoad (servers2 ! mostLoadedIdx));
                       heap2 = updateHeap heap1 leastLoadedIdx (currentLoad (servers2 ! leastLoadedIdx))
                   in Some (servers2, heap2)
              else Some (servers, heap))"

section \<open>Task assignment\<close>

text \<open>
  One iteration of the assignment loop without its rebalancing tail; the result also names
  the server chosen. An identifier outside the server array would be an out-of-bounds
  write, modelled as \<open>None\<close>.
\<close>

definition assignTask :: "Server list \<Rightarrow> MinHeap \<Rightarrow> rat \<Rightarrow> (Server list \<times> MinHeap \<times> nat) option" where
  "assignTask servers heap taskLoad =
     (case extractMin heap of
        None \<Rightarrow> None
      | Some (minServer, heap1) \<Rightarrow>
          if serverId minServer < length servers
          then let servers1 = addLoad servers (serverId minServer) taskLoad;
                   newLoad = currentLoad (servers1 ! serverId minServer)
               in Some (servers1, insertHeap heap1 (serverId minServer) newLoad, serverId minServer)
          else None)"

text \<open>
  The assignment loop over the task loads still to come (\<^verbatim>\<open>simulateTaskAssignment\<close>, and
  menu choice 2 of \<^verbatim>\<open>runInteractiveSimulation\<close>): \<open>tasksAssigned\<close> counts the tasks done,
  rebalancing runs whenever the count is a multiple of \<open>interval\<close>, and the servers chosen
  are collected in order.
\<close>

fun assignAll :: "Server list \<Rightarrow> MinHeap \<Rightarrow> rat \<Rightarrow> nat \<Rightarrow> nat \<Rightarrow> rat list
                  \<Rightarrow> (Server list \<times> MinHeap \<times> nat list) option" where
  "assignAll servers heap threshold interval tasksAssigned [] = Some (servers, heap, [])"
| "assignAll servers heap threshold interval tasksAssigned (taskLoad # rest) =
     (case assignTask servers heap taskLoad of
        None \<Rightarrow> None
      | Some (servers1, heap1, chosen) \<Rightarrow>
          (case (if (tasksAssigned + 1) mod interval = 0
                 then rebalanceLoads servers1 threshold heap1
                 else Some (servers1, heap1)) of
             None \<Rightarrow> None
           | Some (servers2, heap2) \<Rightarrow>
               map_option (\<lambda>(s, h, cs). (s, h, chosen # cs))
                 (assignAll servers2 heap2 threshold interval (tasksAssigned + 1) rest)))"

text \<open>The seeding loop \<^verbatim>\<open>for (i = 0; i < numServers; i++) insertHeap(heap, i, 0.0)\<close>.\<close>

function seedHeap :: "MinHeap \<Rightarrow> nat \<Rightarrow> nat \<Rightarrow> MinHeap" where
  "seedHeap heap n i = (if i < n then seedHeap (insertHeap heap i 0) n (i + 1) else heap)"
  by pat_completeness auto
termination
  by (relation "measure (\<lambda>(heap, n, i). n - i)") auto

definition initHeap :: "nat \<Rightarrow> MinHeap" where
  "initHeap n = seedHeap (createMinHeap n) n 0"

declare heapifyUp.simps [simp del] heapifyDown.simps [simp del] findIndex.simps [simp del]
  sumLoads.simps [simp del] mostLoaded_loop.simps [simp del] leastLoaded_loop.simps [simp del]
  seedHeap.simps [simp del] getYesNoInput.simps [simp del]

section \<open>Binary32 arithmetic\<close>

text \<open>
  Rounding to the nearest binary32 value, ties to even: a value with \<open>2^e \<le> |x| < 2^(e+1)\<close>
  is rounded to a multiple of \<open>2^(e-23)\<close>, which leaves a significand of 24 bits. The
  exponent range is not bounded, so there is no overflow and there are no subnormal
  values; the loads of the two programs (sums of at most 1000 task loads of at most 50)
  stay far inside the range of a \<^verbatim>\<open>float\<close>.
\<close>

text \<open>The number of binary digits of a positive integer.\<close>

function bit_length :: "int \<Rightarrow> nat" where
  "bit_length n = (if 0 < n then Suc (bit_length (n div 2)) else 0)"
  by pat_completeness auto
termination
  by (relation "measure nat") auto

declare bit_length.simps [simp del]

definition binade :: "rat \<Rightarrow> int" where
  "binade x = (if 1 \<le> x then int (bit_length \<lfloor>x\<rfloor>) - 1
               else - int (bit_length (\<lceil>1 / x\<rceil> - 1)))"

definition half_even :: "rat \<Rightarrow> int" where
  "half_even q =
     (let f = \<lfloor>q\<rfloor>; r = q - of_int f
      in if r < 1 / 2 then f else if 1 / 2 < r then f + 1 else if even f then f else f + 1)"

definition round_pos :: "rat \<Rightarrow> rat" where
  "round_pos x = (let e = binade x in of_int (half_even (x / 2 powi (e - 23))) * 2 powi (e - 23))"

definition round32 :: "rat \<Rightarrow> rat" where
  "round32 x = (if x = 0 then 0 else if 0 < x then round_pos x else - round_pos (- x))"

section \<open>Load balancing functions in binary32 arithmetic\<close>

text \<open>
  The functions of the two sections above with every float operation rounded: an
  operation on two floats is evaluated in float precision (\<^verbatim>\<open>FLT_EVAL_METHOD\<close> 0, as on
  x86-64 and ARM64). The constants
  \<^verbatim>\<open>100.0\<close> and \<^verbatim>\<open>0.5\<close> are doubles: the product of a float with either of them is
  exact in double precision and is rounded when it is stored in a float.
  \<^verbatim>\<open>rebalanceLoads_f32\<close> also returns whether the migration branch was taken.
\<close>

text \<open>\<^verbatim>\<open>servers[i].currentLoad += x\<close> and \<^verbatim>\<open>servers[i].currentLoad -= x\<close>.\<close>

definition addLoad_f32 :: "Server list \<Rightarrow> nat \<Rightarrow> rat \<Rightarrow> Server list" where
  "addLoad_f32 servers i x =
     servers[i := (servers ! i)\<lparr>currentLoad := round32 (currentLoad (servers ! i) + x)\<rparr>]"

definition subLoad_f32 :: "Server list \<Rightarrow> nat \<Rightarrow> rat \<Rightarrow> Server list" where
  "subLoad_f32 servers i x =
     servers[i := (servers ! i)\<lparr>currentLoad := round32 (currentLoad (servers ! i) - x)\<rparr>]"

text \<open>The loop of \<^verbatim>\<open>calculateAverageLoad\<close>, \<^verbatim>\<open>totalLoad += servers[i].currentLoad\<close>, and its
  \<^verbatim>\<open>return totalLoad / numServers\<close>.\<close>

function sumLoads_f32 :: "Server list \<Rightarrow> nat \<Rightarrow> rat \<Rightarrow> rat" where
  "sumLoads_f32 servers i totalLoad =
     (if i < length servers
      then sumLoads_f32 servers (i + 1) (round32 (totalLoad + currentLoad (servers ! i)))
      else totalLoad)"
  by pat_completeness auto
termination
  by (relation "measure (\<lambda>(servers, i, t). length servers - i)") auto

declare sumLoads_f32.simps [simp del]

definition calculateAverageLoad_f32 :: "Server list \<Rightarrow> rat" where
  "calculateAverageLoad_f32 servers = round32 (sumLoads_f32 servers 0 0 / of_nat (length servers))"

text \<open>\<^verbatim>\<open>return (server.currentLoad / server.capacity) * 100.0\<close>: the quotient is a float, the
  product a double, the result a float.\<close>

definition getLoadPercentage_f32 :: "Server \<Rightarrow> rat" where
  "getLoadPercentage_f32 server = round32 (round32 (currentLoad server / capacity server) * 100)"

text \<open>The local variable \<^verbatim>\<open>imbalance\<close> of \<^verbatim>\<open>rebalanceLoads\<close>, a difference of two floats.\<close>

definition imbalance_f32 :: "Server list \<Rightarrow> rat" where
  "imbalance_f32 servers =
     (let mostLoadedIdx = findMostLoadedServer servers;
          leastLoadedIdx = findLeastLoadedServer servers;
          mostLoadedPercent = getLoadPercentage_f32 (servers ! mostLoadedIdx);
          leastLoadedPercent = getLoadPercentage_f32 (servers ! leastLoadedIdx)
      in round32 (mostLoadedPercent - leastLoadedPercent))"

text \<open>The local variable \<^verbatim>\<open>migrationAmount\<close>: the difference is a float, its product with
  \<^verbatim>\<open>0.5\<close> a double, the result a float.\<close>

definition migrationAmount_f32 :: "Server list \<Rightarrow> rat" where
  "migrationAmount_f32 servers =
     round32 (round32 (currentLoad (servers ! findMostLoadedServer servers)
                       - calculateAverageLoad_f32 servers) * (1 / 2))"

text \<open>\<^verbatim>\<open>rebalanceLoads\<close>: the subtraction from the most-loaded server comes first, the
  addition to the least-loaded one reads the array after it, and the heap is updated with
  the loads found in the array after both.\<close>

definition rebalanceLoads_f32 ::
    "Server list \<Rightarrow> rat \<Rightarrow> MinHeap \<Rightarrow> (Server list \<times> MinHeap \<times> bool) option" where
  "rebalanceLoads_f32 servers threshold heap =
     (if servers = [] then None
      else let mostLoadedIdx = findMostLoadedServer servers;
               leastLoadedIdx = findLeastLoadedServer servers
           in if imbalance_f32 servers > threshold
              then let m = migrationAmount_f32 servers;
                       servers1 = subLoad_f32 servers mostLoadedIdx m;
                       servers2 = addLoad_f32 servers1 leastLoadedIdx m;
                       heap1 = updateHeap heap mostLoadedIdx (currentLoad (servers2 ! mostLoadedIdx));
                       heap2 = updateHeap heap1 leastLoadedIdx (currentLoad (servers2 ! leastLoadedIdx))
                   in Some (servers2, heap2, True)
              else Some (servers, heap, False))"

text \<open>One iteration of the assignment loop, as \<^verbatim>\<open>assignTask\<close> above.\<close>

definition assignTask_f32 ::
    "Server list \<Rightarrow> MinHeap \<Rightarrow> rat \<Rightarrow> (Server list \<times> MinHeap \<times> nat) option" where
  "assignTask_f32 servers heap taskLoad =
     (case extractMin heap of
        None \<Rightarrow> None
      | Some (minServer, heap1) \<Rightarrow>
          if serverId minServer < length servers
          then let servers1 = addLoad_f32 servers (serverId minServer) taskLoad;
                   newLoad = currentLoad (servers1 ! serverId minServer)
               in Some (servers1, insertHeap heap1 (serverId minServer) newLoad, serverId minServer)
          else None)"

section \<open>Specification vocabulary\<close>

text \<open>The live cells of the heap array.\<close>

definition entries :: "MinHeap \<Rightarrow> HeapNode list" where
  "entries heap = take (size_h heap) (arr heap)"

text \<open>The size stays within the allocation.\<close>

definition heap_wf :: "MinHeap \<Rightarrow> bool" where
  "heap_wf heap \<longleftrightarrow> size_h heap \<le> capacity_h heap \<and> length (arr heap) = capacity_h heap"

text \<open>The min-heap property: no live cell but the root is lighter than its parent.\<close>

definition heap_ok :: "MinHeap \<Rightarrow> bool" where
  "heap_ok heap \<longleftrightarrow>
     (\<forall>i \<in> {1..<size_h heap}. load (arr heap ! ((i - 1) div 2)) \<le> load (arr heap ! i))"

text \<open>The same property on an array with an explicit size, cell by cell.\<close>

definition le_parent :: "HeapNode list \<Rightarrow> nat \<Rightarrow> bool" where
  "le_parent a i \<longleftrightarrow> load (a ! ((i - 1) div 2)) \<le> load (a ! i)"

definition heap_upto :: "HeapNode list \<Rightarrow> nat \<Rightarrow> bool" where
  "heap_upto a n \<longleftrightarrow> (\<forall>i. 0 < i \<and> i < n \<longrightarrow> le_parent a i)"

text \<open>
  The property while a cell \<open>k\<close> is on its way up (it may be lighter than its parent) or on
  its way down (it may be heavier than its children); in both the parent of \<open>k\<close> is no
  heavier than the children of \<open>k\<close>.
\<close>

definition up_inv :: "HeapNode list \<Rightarrow> nat \<Rightarrow> nat \<Rightarrow> bool" where
  "up_inv a n k \<longleftrightarrow>
     (\<forall>i. 0 < i \<and> i < n \<and> i \<noteq> k \<longrightarrow> le_parent a i) \<and>
     (\<forall>c. 0 < k \<and> 0 < c \<and> c < n \<and> (c - 1) div 2 = k
          \<longrightarrow> load (a ! ((k - 1) div 2)) \<le> load (a ! c))"

definition down_inv :: "HeapNode list \<Rightarrow> nat \<Rightarrow> nat \<Rightarrow> bool" where
  "down_inv a n k \<longleftrightarrow>
     (\<forall>i. 0 < i \<and> i < n \<and> (i - 1) div 2 \<noteq> k \<longrightarrow> le_parent a i) \<and>
     (\<forall>c. 0 < k \<and> 0 < c \<and> c < n \<and> (c - 1) div 2 = k
          \<longrightarrow> load (a ! ((k - 1) div 2)) \<le> load (a ! c))"






text \<open>The fleet-wide sum of current loads.\<close>

definition total_load :: "Server list \<Rightarrow> rat" where
  "total_load servers = sum_list (map currentLoad servers)"

text \<open>The heap entry that mirrors server \<open>i\<close>.\<close>

definition entry_of :: "Server list \<Rightarrow> nat \<Rightarrow> HeapNode" where
  "entry_of servers i = \<lparr>serverId = i, load = currentLoad (servers ! i)\<rparr>"

text \<open>
  The heap is in sync with the registry: its live cells are, as a multiset, one entry per
  server carrying that server's current load.
\<close>

definition in_sync :: "Server list \<Rightarrow> MinHeap \<Rightarrow> bool" where
  "in_sync servers heap \<longleftrightarrow>
     mset (entries heap) = mset (map (entry_of servers) [0..<length servers])"

text \<open>No server carries a negative load.\<close>

definition loads_nonneg :: "Server list \<Rightarrow> bool" where
  "loads_nonneg servers \<longleftrightarrow> list_all (\<lambda>s. 0 \<le> currentLoad s) servers"

text \<open>Every load is a binary32 value.\<close>

definition loads_f32 :: "Server list \<Rightarrow> bool" where
  "loads_f32 servers \<longleftrightarrow> list_all (\<lambda>s. round32 (currentLoad s) = currentLoad s) servers"

text \<open>
  The states a run can be in, with binary32 arithmetic: it starts with every load at 0 and
  the heap seeded with all servers, and goes on by assigning a task of positive load or by
  rebalancing with any threshold (periodic or from the menu).
\<close>

inductive reachable_f32 :: "Server list \<Rightarrow> MinHeap \<Rightarrow> bool" where
  start: "servers \<noteq> [] \<Longrightarrow> list_all (\<lambda>s. currentLoad s = 0) servers
          \<Longrightarrow> reachable_f32 servers (initHeap (length servers))"
| assign: "reachable_f32 servers heap \<Longrightarrow> 0 < taskLoad
          \<Longrightarrow> assignTask_f32 servers heap taskLoad = Some (servers', heap', chosen)
          \<Longrightarrow> reachable_f32 servers' heap'"
| rebalance: "reachable_f32 servers heap
          \<Longrightarrow> rebalanceLoads_f32 servers threshold heap = Some (servers', heap', fired)
          \<Longrightarrow> reachable_f32 servers' heap'"

section \<open>Example states\<close>

text \<open>
  Two servers of capacity 100 at 90% and 60%, and at 70% and 60%, with a heap in sync;
  two servers of capacities 200 and 100 at 60% and 90%; a heap of three entries; and the
  states of three servers of capacity 100 that take three tasks of load 10 one after the
  other.
\<close>

definition fleet_90_60 :: "Server list" where
  "fleet_90_60 = [\<lparr>id_srv = 0, capacity = 100, currentLoad = 90\<rparr>,
                  \<lparr>id_srv = 1, capacity = 100, currentLoad = 60\<rparr>]"

definition heap_90_60 :: MinHeap where
  "heap_90_60 = \<lparr>arr = [\<lparr>serverId = 1, load = 60\<rparr>, \<lparr>serverId = 0, load = 90\<rparr>],
                 size_h = 2, capacity_h = 2\<rparr>"

definition fleet_70_60 :: "Server list" where
  "fleet_70_60 = [\<lparr>id_srv = 0, capacity = 100, currentLoad = 70\<rparr>,
                  \<lparr>id_srv = 1, capacity = 100, currentLoad = 60\<rparr>]"

definition fleet_skew :: "Server list" where
  "fleet_skew = [\<lparr>id_srv = 0, capacity = 200, currentLoad = 120\<rparr>,
                 \<lparr>id_srv = 1, capacity = 100, currentLoad = 90\<rparr>]"

definition heap_skew :: MinHeap where
  "heap_skew = \<lparr>arr = [\<lparr>serverId = 1, load = 90\<rparr>, \<lparr>serverId = 0, load = 120\<rparr>],
                size_h = 2, capacity_h = 2\<rparr>"

definition heap3 :: MinHeap where
  "heap3 = \<lparr>arr = [\<lparr>serverId = 2, load = 1\<rparr>, \<lparr>serverId = 0, load = 4\<rparr>,
                   \<lparr>serverId = 1, load = 2\<rparr>],
            size_h = 3, capacity_h = 3\<rparr>"

definition fleet3 :: "Server list" where
  "fleet3 = [\<lparr>id_srv = 0, capacity = 100, currentLoad = 0\<rparr>,
             \<lparr>id_srv = 1, capacity = 100, currentLoad = 0\<rparr>,
             \<lparr>id_srv = 2, capacity = 100, currentLoad = 0\<rparr>]"

definition fleet3_one :: "Server list" where
  "fleet3_one = [\<lparr>id_srv = 0, capacity = 100, currentLoad = 10\<rparr>,
                 \<lparr>id_srv = 1, capacity = 100, currentLoad = 0\<rparr>,
                 \<lparr>id_srv = 2, capacity = 100, currentLoad = 0\<rparr>]"

definition heap3_one :: MinHeap where
  "heap3_one = \<lparr>arr = [\<lparr>serverId = 2, load = 0\<rparr>, \<lparr>serverId = 1, load = 0\<rparr>,
                       \<lparr>serverId = 0, load = 10\<rparr>],
                size_h = 3, capacity_h = 3\<rparr>"

definition fleet3_two :: "Server list" where
  "fleet3_two = [\<lparr>id_srv = 0, capacity = 100, currentLoad = 10\<rparr>,
                 \<lparr>id_srv = 1, capacity = 100, currentLoad = 0\<rparr>,
                 \<lparr>id_srv = 2, capacity = 100, currentLoad = 10\<rparr>]"

definition heap3_two :: MinHeap where
  "heap3_two = \<lparr>arr = [\<lparr>serverId = 1, load = 0\<rparr>, \<lparr>serverId = 0, load = 10\<rparr>,
                       \<lparr>serverId = 2, load = 10\<rparr>],
                size_h = 3, capacity_h = 3\<rparr>"

definition fleet3_done :: "Server list" where
  "fleet3_done = [\<lparr>id_srv = 0, capacity = 100, currentLoad = 10\<rparr>,
                  \<lparr>id_srv = 1, capacity = 100, currentLoad = 10\<rparr>,
                  \<lparr>id_srv = 2, capacity = 100, currentLoad = 10\<rparr>]"

definition heap3_done :: MinHeap where
  "heap3_done = \<lparr>arr = [\<lparr>serverId = 2, load = 10\<rparr>, \<lparr>serverId = 0, load = 10\<rparr>,
                        \<lparr>serverId = 1, load = 10\<rparr>],
                 size_h = 3, capacity_h = 3\<rparr>"

text \<open>Two servers of capacity 100 at 60% and 40%, with a heap in sync.\<close>

definition fleet_60_40 :: "Server list" where
  "fleet_60_40 = [\<lparr>id_srv = 0, capacity = 100, currentLoad = 60\<rparr>,
                  \<lparr>id_srv = 1, capacity = 100, currentLoad = 40\<rparr>]"

definition heap_60_40 :: MinHeap where
  "heap_60_40 = \<lparr>arr = [\<lparr>serverId = 1, load = 40\<rparr>, \<lparr>serverId = 0, load = 60\<rparr>],
                 size_h = 2, capacity_h = 2\<rparr>"

text \<open>
  Three servers of capacities 200, 50 and 100 that took one task each, of loads
  \<open>16739609 / 2^20\<close>, \<open>16739610 / 2^20\<close> and \<open>16739610 / 2^20\<close> (about 15.96; all three
  are binary32 values), and the same fleet after the rebalance that follows.
\<close>

definition fleet_close_start :: "Server list" where
  "fleet_close_start = [\<lparr>id_srv = 0, capacity = 200, currentLoad = 0\<rparr>,
                        \<lparr>id_srv = 1, capacity = 50, currentLoad = 0\<rparr>,
                        \<lparr>id_srv = 2, capacity = 100, currentLoad = 0\<rparr>]"

definition fleet_close :: "Server list" where
  "fleet_close = [\<lparr>id_srv = 0, capacity = 200, currentLoad = 16739609 / 1048576\<rparr>,
                  \<lparr>id_srv = 1, capacity = 50, currentLoad = 16739610 / 1048576\<rparr>,
                  \<lparr>id_srv = 2, capacity = 100, currentLoad = 16739610 / 1048576\<rparr>]"

definition heap_close :: MinHeap where
  "heap_close = \<lparr>arr = [\<lparr>serverId = 0, load = 16739609 / 1048576\<rparr>,
                        \<lparr>serverId = 2, load = 16739610 / 1048576\<rparr>,
                        \<lparr>serverId = 1, load = 16739610 / 1048576\<rparr>],
                 size_h = 3, capacity_h = 3\<rparr>"

definition fleet_close_after :: "Server list" where
  "fleet_close_after = [\<lparr>id_srv = 0, capacity = 200, currentLoad = 16739608 / 1048576\<rparr>,
                        \<lparr>id_srv = 1, capacity = 50, currentLoad = 16739610 / 1048576\<rparr>,
                        \<lparr>id_srv = 2, capacity = 100, currentLoad = 16739610 / 1048576\<rparr>]"

definition heap_close_after :: MinHeap where
  "heap_close_after = \<lparr>arr = [\<lparr>serverId = 0, load = 16739608 / 1048576\<rparr>,
                              \<lparr>serverId = 2, load = 16739610 / 1048576\<rparr>,
                              \<lparr>serverId = 1, load = 16739610 / 1048576\<rparr>],
                       size_h = 3, capacity_h = 3\<rparr>"

section \<open>The heap invariant under sifting\<close>

lemma heap_ok_upto: "heap_ok heap \<longleftrightarrow> heap_upto (arr heap) (size_h heap)"
  by (auto simp: heap_ok_def heap_upto_def le_parent_def)

lemma swap_nodes_simps [simp]:
  "size_h (swap_nodes heap a b) = size_h heap"
  "capacity_h (swap_nodes heap a b) = capacity_h heap"
  "length (arr (swap_nodes heap a b)) = length (arr heap)"
  by (simp_all add: swap_nodes_def)

lemma up_inv_swap:
  assumes inv: "up_inv a n k" and k: "0 < k" "k < n" "n \<le> length a"
    and p: "(k - 1) div 2 = p"
    and lt: "load (a ! k) < load (a ! p)"
  shows "up_inv (a[k := a ! p, p := a ! k]) n p"
proof -
  have pS: "(k - Suc 0) div 2 = p" using p by simp
  have pk: "p < k" using k p by linarith
  let ?b = "a[k := a ! p, p := a ! k]"
  have bk: "?b ! k = a ! p" and bp: "?b ! p = a ! k"
    using pk k by simp_all
  have bo: "\<And>j. j \<noteq> k \<Longrightarrow> j \<noteq> p \<Longrightarrow> ?b ! j = a ! j" by simp
  have A: "\<And>i. 0 < i \<Longrightarrow> i < n \<Longrightarrow> i \<noteq> k \<Longrightarrow> load (a ! ((i - 1) div 2)) \<le> load (a ! i)"
    using inv by (simp add: up_inv_def le_parent_def)
  have B: "\<And>c. 0 < c \<Longrightarrow> c < n \<Longrightarrow> (c - 1) div 2 = k \<Longrightarrow> load (a ! p) \<le> load (a ! c)"
    using inv k pS by (simp add: up_inv_def)
  have 1: "le_parent ?b i" if i: "0 < i" "i < n" "i \<noteq> p" for i
  proof -
    let ?q = "(i - 1) div 2"
    have qi: "?q < i" using i by linarith
    consider "i = k" | "i \<noteq> k" "?q = p" | "i \<noteq> k" "?q = k" | "i \<noteq> k" "?q \<noteq> p" "?q \<noteq> k" by blast
    then show ?thesis
    proof cases
      case 1
      then show ?thesis using lt bk bp pS by (simp add: le_parent_def)
    next
      case 2
      have "load (a ! p) \<le> load (a ! i)" using A [OF i(1,2) 2(1)] 2(2) by simp
      then show ?thesis using 2 i lt bp bo [of i] by (simp add: le_parent_def)
    next
      case 3
      have "load (a ! p) \<le> load (a ! i)" using B [OF i(1,2) 3(2)] .
      then show ?thesis using 3 i bk bo [of i] by (simp add: le_parent_def)
    next
      case 4
      then show ?thesis using A [OF i(1,2) 4(1)] i bo [of i] bo [of ?q] by (simp add: le_parent_def)
    qed
  qed
  have 2: "load (?b ! ((p - 1) div 2)) \<le> load (?b ! c)"
    if c: "0 < p" "0 < c" "c < n" "(c - 1) div 2 = p" for c
  proof -
    let ?g = "(p - 1) div 2"
    have gp: "?g < p" using c by linarith
    have g: "?b ! ?g = a ! ?g" using gp pk by simp
    have pn: "p < n" using pk k by simp
    have gpl: "load (a ! ?g) \<le> load (a ! p)" using A [of p] c pn pk by simp
    show ?thesis
    proof (cases "c = k")
      case True
      then show ?thesis using g bk gpl by simp
    next
      case False
      have "c \<noteq> p" using c by linarith
      then have "?b ! c = a ! c" using False by simp
      moreover have "load (a ! p) \<le> load (a ! c)" using A [OF c(2,3) False] c by simp
      ultimately show ?thesis using g gpl by simp
    qed
  qed
  show ?thesis
    unfolding up_inv_def using 1 2 by blast
qed

lemma up_inv_done:
  "up_inv a n k \<Longrightarrow> k = 0 \<or> le_parent a k \<Longrightarrow> heap_upto a n"
  by (auto simp: up_inv_def heap_upto_def)

lemma heapifyUp_heap_upto:
  "up_inv (arr heap) n k \<Longrightarrow> k < n \<Longrightarrow> n \<le> length (arr heap)
   \<Longrightarrow> heap_upto (arr (heapifyUp heap k)) n"
proof (induction heap k rule: heapifyUp.induct)
  case (1 heap index)
  show ?case
  proof (cases "index = 0")
    case True
    then show ?thesis using "1.prems" up_inv_done by (simp add: heapifyUp.simps)
  next
    case False
    let ?p = "(index - 1) div 2"
    show ?thesis
    proof (cases "load (arr heap ! index) < load (arr heap ! ?p)")
      case True
      have "up_inv (arr (swap_nodes heap index ?p)) n ?p"
        using up_inv_swap [OF "1.prems"(1) _ "1.prems"(2,3) refl True] False
        by (simp add: swap_nodes_def)
      moreover have "?p < n" using "1.prems" False by linarith
      ultimately have "heap_upto (arr (heapifyUp (swap_nodes heap index ?p) ?p)) n"
        using "1.IH" [OF False refl True] "1.prems" by simp
      then show ?thesis using False True by (simp add: heapifyUp.simps [of heap index] Let_def)
    next
      case F2: False
      then have "le_parent (arr heap) index" by (simp add: le_parent_def)
      then show ?thesis using False F2 "1.prems" up_inv_done
        by (simp add: heapifyUp.simps [of heap index] Let_def)
    qed
  qed
qed

lemma down_inv_swap:
  assumes inv: "down_inv a n k" and s: "s = 2 * k + 1 \<or> s = 2 * k + 2" "s < n" "n \<le> length a"
    and lt: "load (a ! s) < load (a ! k)"
    and least: "\<And>c. 0 < c \<Longrightarrow> c < n \<Longrightarrow> (c - 1) div 2 = k \<Longrightarrow> load (a ! s) \<le> load (a ! c)"
  shows "down_inv (a[k := a ! s, s := a ! k]) n s"
proof -
  let ?b = "a[k := a ! s, s := a ! k]"
  have ks: "k < s" and ps: "(s - 1) div 2 = k" "(s - Suc 0) div 2 = k" using s(1) by auto
  have bk: "?b ! k = a ! s" and bs: "?b ! s = a ! k"
    using ks s by simp_all
  have bo: "\<And>j. j \<noteq> k \<Longrightarrow> j \<noteq> s \<Longrightarrow> ?b ! j = a ! j" by simp
  have A: "\<And>i. 0 < i \<Longrightarrow> i < n \<Longrightarrow> (i - 1) div 2 \<noteq> k \<Longrightarrow> load (a ! ((i - 1) div 2)) \<le> load (a ! i)"
    using inv by (simp add: down_inv_def le_parent_def)
  have B: "\<And>c. 0 < k \<Longrightarrow> 0 < c \<Longrightarrow> c < n \<Longrightarrow> (c - 1) div 2 = k \<Longrightarrow> load (a ! ((k - 1) div 2)) \<le> load (a ! c)"
    using inv by (simp add: down_inv_def)
  have 1: "le_parent ?b i" if i: "0 < i" "i < n" "(i - 1) div 2 \<noteq> s" for i
  proof -
    let ?q = "(i - 1) div 2"
    have qi: "?q < i" using i by linarith
    consider "?q = k" "i = s" | "?q = k" "i \<noteq> s" | "i = k" | "i \<noteq> k" "?q \<noteq> k" by blast
    then show ?thesis
    proof cases
      case 1
      then show ?thesis using lt bk bs by (simp add: le_parent_def)
    next
      case 2
      have "i \<noteq> k" using 2 qi by simp
      then have "?b ! i = a ! i" using 2 by simp
      then show ?thesis using 2 least [OF i(1,2) 2(1)] bk by (simp add: le_parent_def)
    next
      case 3
      have q: "?q \<noteq> k" "?q \<noteq> s" using 3 qi ks by simp_all
      have "load (a ! ?q) \<le> load (a ! s)" using B [of s] 3 i ks s ps by simp
      then show ?thesis using 3 q bk bo [of ?q] by (simp add: le_parent_def)
    next
      case 4
      have "i \<noteq> s" using 4 ps by auto
      then have "?b ! i = a ! i" "?b ! ?q = a ! ?q" using 4 i by simp_all
      then show ?thesis using A [OF i(1,2) 4(2)] by (simp add: le_parent_def)
    qed
  qed
  have 2: "load (?b ! ((s - 1) div 2)) \<le> load (?b ! c)"
    if c: "0 < c" "c < n" "(c - 1) div 2 = s" for c
  proof -
    have "s < c" using c by linarith
    then have "?b ! c = a ! c" using ks by simp
    moreover have "load (a ! s) \<le> load (a ! c)" using A [OF c(1,2)] c ks by simp
    ultimately show ?thesis using bk ps by simp
  qed
  show ?thesis
    unfolding down_inv_def using 1 2 by blast
qed

lemma down_inv_done:
  assumes "down_inv a n k"
    and "\<And>c. 0 < c \<Longrightarrow> c < n \<Longrightarrow> (c - 1) div 2 = k \<Longrightarrow> load (a ! k) \<le> load (a ! c)"
  shows "heap_upto a n"
  using assms unfolding down_inv_def heap_upto_def le_parent_def by metis

lemma child_cases: "0 < (c::nat) \<Longrightarrow> (c - 1) div 2 = k \<Longrightarrow> c = 2 * k + 1 \<or> c = 2 * k + 2"
  by linarith

lemma heapifyDown_heap_upto:
  "down_inv (arr heap) (size_h heap) k \<Longrightarrow> size_h heap \<le> length (arr heap)
   \<Longrightarrow> heap_upto (arr (heapifyDown heap k)) (size_h heap)"
proof (induction heap k rule: heapifyDown.induct)
  case (1 heap index)
  let ?a = "arr heap" and ?n = "size_h heap"
  let ?l = "2 * index + 1" and ?r = "2 * index + 2"
  define s1 where "s1 = (if ?l < ?n \<and> load (?a ! ?l) < load (?a ! index) then ?l else index)"
  define s2 where "s2 = (if ?r < ?n \<and> load (?a ! ?r) < load (?a ! s1) then ?r else s1)"
  have unfold: "heapifyDown heap index =
      (if s2 \<noteq> index then heapifyDown (swap_nodes heap index s2) s2 else heap)"
    by (subst heapifyDown.simps) (simp add: s1_def s2_def Let_def)
  have least: "load (?a ! s2) \<le> load (?a ! c)" if c: "0 < c" "c < ?n" "(c - 1) div 2 = index" for c
  proof -
    from child_cases [OF c(1,3)] show ?thesis
    proof
      assume "c = ?l"
      then show ?thesis using c by (auto simp: s1_def s2_def)
    next
      assume "c = ?r"
      then show ?thesis using c by (auto simp: s1_def s2_def)
    qed
  qed
  have le_k: "load (?a ! s2) \<le> load (?a ! index)" by (auto simp: s1_def s2_def)
  show ?case
  proof (cases "s2 = index")
    case True
    have "heap_upto ?a ?n"
      using down_inv_done [OF "1.prems"(1)] least True by simp
    then show ?thesis using True unfold by simp
  next
    case False
    have s: "s2 = ?l \<or> s2 = ?r" "s2 < ?n" and lt: "load (?a ! s2) < load (?a ! index)"
      using False by (auto simp: s1_def s2_def split: if_splits)
    have "down_inv (arr (swap_nodes heap index s2)) ?n s2"
      using down_inv_swap [OF "1.prems"(1) s "1.prems"(2) lt least] by (simp add: swap_nodes_def)
    then have "heap_upto (arr (heapifyDown (swap_nodes heap index s2) s2)) ?n"
      using "1.IH" [OF refl refl s1_def s2_def False] "1.prems" by simp
    then show ?thesis using False unfold by simp
  qed
qed

lemma heapifyUp_frame [simp]:
  "size_h (heapifyUp heap k) = size_h heap"
  "capacity_h (heapifyUp heap k) = capacity_h heap"
  "length (arr (heapifyUp heap k)) = length (arr heap)"
  by (induction heap k rule: heapifyUp.induct; subst heapifyUp.simps; simp add: Let_def)+

lemma heapifyDown_frame [simp]:
  "size_h (heapifyDown heap k) = size_h heap"
  "capacity_h (heapifyDown heap k) = capacity_h heap"
  "length (arr (heapifyDown heap k)) = length (arr heap)"
  by (induction heap k rule: heapifyDown.induct; subst heapifyDown.simps; simp add: Let_def)+

lemma mset_take_swap:
  "i < n \<Longrightarrow> j < n \<Longrightarrow> n \<le> length a
   \<Longrightarrow> mset (take n (a[i := a ! j, j := a ! i])) = mset (take n a)"
  using mset_swap [of j "take n a" i] by (simp add: take_update_swap)

lemma heapifyUp_mset:
  "k < n \<Longrightarrow> n \<le> length (arr heap)
   \<Longrightarrow> mset (take n (arr (heapifyUp heap k))) = mset (take n (arr heap))"
proof (induction heap k rule: heapifyUp.induct)
  case (1 heap index)
  show ?case
  proof (cases "index \<noteq> 0 \<and> load (arr heap ! index) < load (arr heap ! ((index - 1) div 2))")
    case True
    let ?p = "(index - 1) div 2"
    have p: "?p < n" using "1.prems" by linarith
    have "mset (take n (arr (heapifyUp (swap_nodes heap index ?p) ?p)))
          = mset (take n (arr (swap_nodes heap index ?p)))"
      using "1.IH" [OF _ refl] True p "1.prems" by simp
    also have "\<dots> = mset (take n (arr heap))"
      using mset_take_swap [OF "1.prems"(1) p "1.prems"(2)] by (simp add: swap_nodes_def)
    finally show ?thesis using True by (subst heapifyUp.simps) (simp add: Let_def)
  next
    case False
    then show ?thesis by (subst heapifyUp.simps) (auto simp: Let_def)
  qed
qed

lemma heapifyDown_mset:
  "k < size_h heap \<Longrightarrow> size_h heap \<le> length (arr heap)
   \<Longrightarrow> mset (take (size_h heap) (arr (heapifyDown heap k))) = mset (take (size_h heap) (arr heap))"
proof (induction heap k rule: heapifyDown.induct)
  case (1 heap index)
  let ?a = "arr heap" and ?n = "size_h heap"
  let ?l = "2 * index + 1" and ?r = "2 * index + 2"
  define s1 where "s1 = (if ?l < ?n \<and> load (?a ! ?l) < load (?a ! index) then ?l else index)"
  define s2 where "s2 = (if ?r < ?n \<and> load (?a ! ?r) < load (?a ! s1) then ?r else s1)"
  have unfold: "heapifyDown heap index =
      (if s2 \<noteq> index then heapifyDown (swap_nodes heap index s2) s2 else heap)"
    by (subst heapifyDown.simps) (simp add: s1_def s2_def Let_def)
  show ?case
  proof (cases "s2 = index")
    case True
    then show ?thesis using unfold by simp
  next
    case False
    have s: "s2 < ?n" using False "1.prems" by (auto simp: s1_def s2_def split: if_splits)
    have "mset (take ?n (arr (heapifyDown (swap_nodes heap index s2) s2)))
          = mset (take ?n (arr (swap_nodes heap index s2)))"
      using "1.IH" [OF refl refl s1_def s2_def False] s "1.prems" by simp
    also have "\<dots> = mset (take ?n ?a)"
      using mset_take_swap [OF "1.prems"(1) s "1.prems"(2)] by (simp add: swap_nodes_def)
    finally show ?thesis using False unfold by simp
  qed
qed

lemma root_least:
  "heap_upto a n \<Longrightarrow> i < n \<Longrightarrow> load (a ! 0) \<le> load (a ! i)"
proof (induction i rule: less_induct)
  case (less i)
  show ?case
  proof (cases "i = 0")
    case True
    then show ?thesis by simp
  next
    case False
    let ?p = "(i - 1) div 2"
    have p: "?p < i" using False by linarith
    have "load (a ! 0) \<le> load (a ! ?p)" using less.IH [OF p less.prems(1)] p less.prems(2) by simp
    moreover have "load (a ! ?p) \<le> load (a ! i)"
      using less.prems False by (simp add: heap_upto_def le_parent_def)
    ultimately show ?thesis by simp
  qed
qed

lemma heap_upto_less: "heap_upto a n \<Longrightarrow> m \<le> n \<Longrightarrow> heap_upto a m"
  by (simp add: heap_upto_def)

lemma heap_upto_cong:
  "heap_upto a n \<Longrightarrow> (\<And>i. i < n \<Longrightarrow> b ! i = a ! i) \<Longrightarrow> heap_upto b n"
  unfolding heap_upto_def le_parent_def
proof (intro allI impI)
  fix i assume a: "\<forall>i. 0 < i \<and> i < n \<longrightarrow> load (a ! ((i - 1) div 2)) \<le> load (a ! i)"
    and b: "\<And>i. i < n \<Longrightarrow> b ! i = a ! i" and i: "0 < i \<and> i < n"
  have "(i - 1) div 2 < n" using i by linarith
  then show "load (b ! ((i - 1) div 2)) \<le> load (b ! i)" using a b i by simp
qed

subsection \<open>insertHeap\<close>

lemma insertHeap_full: "capacity_h heap \<le> size_h heap \<Longrightarrow> insertHeap heap sid l = heap"
  by (simp add: insertHeap_def)

lemma insertHeap_size:
  "size_h heap < capacity_h heap \<Longrightarrow> size_h (insertHeap heap sid l) = size_h heap + 1"
  by (simp add: insertHeap_def Let_def)

lemma insertHeap_wf: "heap_wf heap \<Longrightarrow> heap_wf (insertHeap heap sid l)"
  by (auto simp: insertHeap_def heap_wf_def Let_def)

lemma up_inv_append:
  assumes "heap_upto a n" "n < length a"
  shows "up_inv (a[n := x]) (n + 1) n"
  unfolding up_inv_def le_parent_def
proof (intro conjI allI impI)
  fix i assume i: "0 < i \<and> i < n + 1 \<and> i \<noteq> n"
  then have "(i - 1) div 2 \<noteq> n" "i \<noteq> n" by linarith+
  then show "load (a[n := x] ! ((i - 1) div 2)) \<le> load (a[n := x] ! i)"
    using assms i by (simp add: heap_upto_def le_parent_def)
next
  fix c assume "0 < n \<and> 0 < c \<and> c < n + 1 \<and> (c - 1) div 2 = n"
  then have False by linarith
  then show "load (a[n := x] ! ((n - 1) div 2)) \<le> load (a[n := x] ! c)" ..
qed

lemma insertHeap_ok:
  assumes "heap_wf heap" "heap_ok heap"
  shows "heap_ok (insertHeap heap sid l)"
proof (cases "capacity_h heap \<le> size_h heap")
  case True
  then show ?thesis using assms by (simp add: insertHeap_full)
next
  case False
  let ?n = "size_h heap"
  let ?x = "\<lparr>serverId = sid, load = l\<rparr>"
  let ?h1 = "heap\<lparr>arr := (arr heap)[?n := ?x]\<rparr>"
  have n: "?n < length (arr heap)" using False assms by (simp add: heap_wf_def)
  have "up_inv (arr ?h1) (?n + 1) ?n"
    using up_inv_append [of "arr heap" ?n ?x] assms n by (simp add: heap_ok_upto)
  then have "heap_upto (arr (heapifyUp ?h1 ?n)) (?n + 1)"
    using heapifyUp_heap_upto [of ?h1 "?n + 1" ?n] n by simp
  then show ?thesis using False by (simp add: insertHeap_def Let_def heap_ok_upto)
qed

lemma insertHeap_entries:
  assumes "heap_wf heap" "size_h heap < capacity_h heap"
  shows "mset (entries (insertHeap heap sid l))
         = add_mset \<lparr>serverId = sid, load = l\<rparr> (mset (entries heap))"
proof -
  let ?n = "size_h heap"
  let ?x = "\<lparr>serverId = sid, load = l\<rparr>"
  let ?h1 = "heap\<lparr>arr := (arr heap)[?n := ?x]\<rparr>"
  have n: "?n < length (arr heap)" using assms by (simp add: heap_wf_def)
  have "mset (take (?n + 1) (arr (heapifyUp ?h1 ?n))) = mset (take (?n + 1) (arr ?h1))"
    using heapifyUp_mset [of ?n "?n + 1" ?h1] n by simp
  also have "take (?n + 1) (arr ?h1) = take ?n (arr heap) @ [?x]"
    using n by (simp add: take_Suc_conv_app_nth)
  finally show ?thesis using assms by (simp add: insertHeap_def Let_def entries_def)
qed

subsection \<open>extractMin\<close>

lemma extractMin_None: "extractMin heap = None \<longleftrightarrow> size_h heap = 0"
  by (simp add: extractMin_def Let_def)

lemma down_inv_root:
  assumes "heap_upto a (n + 1)" "n < length a"
  shows "down_inv (a[0 := a ! n]) n 0"
  unfolding down_inv_def le_parent_def
proof (intro conjI allI impI)
  fix i assume i: "0 < i \<and> i < n \<and> (i - 1) div 2 \<noteq> 0"
  then show "load (a[0 := a ! n] ! ((i - 1) div 2)) \<le> load (a[0 := a ! n] ! i)"
    using assms by (simp add: heap_upto_def le_parent_def)
next
  fix c :: nat assume "0 < (0::nat) \<and> 0 < c \<and> c < n \<and> (c - 1) div 2 = 0"
  then show "load (a[0 := a ! n] ! ((0 - 1) div 2)) \<le> load (a[0 := a ! n] ! c)" by simp
qed

lemma mset_take_move_last:
  assumes "n < length a"
  shows "mset (take n (a[0 := a ! n])) = mset (take (n + 1) a) - {#a ! 0#}"
proof (cases n)
  case 0
  then show ?thesis using assms by (cases a) simp_all
next
  case (Suc m)
  have "take n (a[0 := a ! n]) = (take n a)[0 := a ! n]" by (simp add: take_update_swap)
  moreover have "mset ((take n a)[0 := a ! n]) = add_mset (a ! n) (mset (take n a) - {#a ! 0#})"
    using mset_update [of 0 "take n a" "a ! n"] Suc assms by simp
  moreover have "a ! 0 \<in># mset (take n a)"
    using Suc assms by (metis in_set_conv_nth length_take min_less_iff_conj nth_take set_mset_mset zero_less_Suc less_imp_le_nat min.absorb2)
  moreover have "mset (take (n + 1) a) = add_mset (a ! n) (mset (take n a))"
    using assms by (simp add: take_Suc_conv_app_nth)
  ultimately show ?thesis by simp
qed

lemma extractMin_correct:
  assumes wf: "heap_wf heap" and ok: "heap_ok heap" and ne: "0 < size_h heap"
  obtains m heap' where "extractMin heap = Some (m, heap')"
    and "m = arr heap ! 0"
    and "\<And>e. e \<in> set (entries heap) \<Longrightarrow> load m \<le> load e"
    and "m \<in> set (entries heap)"
    and "mset (entries heap') = mset (entries heap) - {#m#}"
    and "heap_ok heap'" and "heap_wf heap'" and "size_h heap' = size_h heap - 1"
    and "capacity_h heap' = capacity_h heap"
proof -
  let ?n = "size_h heap - 1"
  let ?a = "arr heap"
  let ?h2 = "heap\<lparr>arr := ?a[0 := ?a ! ?n], size_h := ?n\<rparr>"
  let ?h' = "if 0 < ?n then heapifyDown ?h2 0 else ?h2"
  have n: "?n < length ?a" "?n + 1 = size_h heap" using wf ne by (auto simp: heap_wf_def)
  have up: "heap_upto ?a (?n + 1)" using ok n by (simp add: heap_ok_upto)
  have ex: "extractMin heap = Some (?a ! 0, ?h')"
    using ne by (simp add: extractMin_def Let_def)
  have least: "load (?a ! 0) \<le> load e" if "e \<in> set (entries heap)" for e
  proof -
    from that obtain i where "i < size_h heap" "e = ?a ! i"
      by (auto simp: entries_def in_set_conv_nth)
    then show ?thesis using root_least [OF up, of i] n by simp
  qed
  have mem: "?a ! 0 \<in> set (entries heap)"
    using ne n by (auto simp: entries_def in_set_conv_nth intro!: exI [of _ 0])
  have frame: "size_h ?h' = ?n" "capacity_h ?h' = capacity_h heap" "length (arr ?h') = length ?a"
    by simp_all
  have ms: "mset (entries ?h') = mset (entries heap) - {#?a ! 0#}"
  proof -
    have "mset (take ?n (arr ?h')) = mset (take ?n (?a[0 := ?a ! ?n]))"
      using heapifyDown_mset [of 0 ?h2] n by simp
    then show ?thesis using mset_take_move_last [OF n(1)] n frame by (simp add: entries_def)
  qed
  have okh: "heap_ok ?h'"
  proof (cases "0 < ?n")
    case True
    have "down_inv (arr ?h2) (size_h ?h2) 0" using down_inv_root [OF up n(1)] by simp
    then show ?thesis using heapifyDown_heap_upto [of ?h2 0] n True by (simp add: heap_ok_upto)
  next
    case False
    then show ?thesis by (simp add: heap_ok_def)
  qed
  have "?n \<le> capacity_h heap" "length ?a = capacity_h heap"
    using wf by (auto simp: heap_wf_def)
  then have wfh: "heap_wf ?h'" unfolding heap_wf_def frame by simp
  show thesis using that [OF ex refl least mem ms okh wfh] frame by simp
qed

subsection \<open>updateHeap\<close>

lemma findIndex_Some:
  "findIndex heap sid i = Some j
   \<Longrightarrow> i \<le> j \<and> j < size_h heap \<and> serverId (arr heap ! j) = sid
       \<and> (\<forall>k. i \<le> k \<and> k < j \<longrightarrow> serverId (arr heap ! k) \<noteq> sid)"
proof (induction heap sid i rule: findIndex.induct)
  case (1 heap sid i)
  show ?case
  proof (cases "i < size_h heap \<and> serverId (arr heap ! i) \<noteq> sid")
    case True
    then have "findIndex heap sid (i + 1) = Some j"
      using "1.prems" by (subst (asm) findIndex.simps) simp
    then have *: "i + 1 \<le> j \<and> j < size_h heap \<and> serverId (arr heap ! j) = sid
       \<and> (\<forall>k. i + 1 \<le> k \<and> k < j \<longrightarrow> serverId (arr heap ! k) \<noteq> sid)"
      using "1.IH" True by simp
    have "serverId (arr heap ! k) \<noteq> sid" if "i \<le> k \<and> k < j" for k
      using that * True by (cases "k = i") auto
    then show ?thesis using * by auto
  next
    case False
    then show ?thesis using "1.prems" by (subst (asm) findIndex.simps) (auto split: if_splits)
  qed
qed

lemma findIndex_None:
  "findIndex heap sid i = None \<Longrightarrow> i \<le> k \<Longrightarrow> k < size_h heap \<Longrightarrow> serverId (arr heap ! k) \<noteq> sid"
proof (induction heap sid i rule: findIndex.induct)
  case (1 heap sid i)
  have i: "i < size_h heap" using "1.prems" by simp
  have ne: "serverId (arr heap ! i) \<noteq> sid" and rec: "findIndex heap sid (i + 1) = None"
    using "1.prems"(1) i by (subst (asm) findIndex.simps; simp split: if_splits)+
  show ?case
  proof (cases "k = i")
    case True
    then show ?thesis using ne by simp
  next
    case False
    then show ?thesis using "1.IH" [OF i ne rec] "1.prems" by simp
  qed
qed

lemma updateHeap_frame [simp]:
  "size_h (updateHeap heap sid l) = size_h heap"
  "capacity_h (updateHeap heap sid l) = capacity_h heap"
  "length (arr (updateHeap heap sid l)) = length (arr heap)"
  by (simp_all add: updateHeap_def Let_def split: option.splits)

lemma updateHeap_wf: "heap_wf heap \<Longrightarrow> heap_wf (updateHeap heap sid l)"
  by (simp add: heap_wf_def)

lemma up_inv_decrease:
  assumes h: "heap_upto a n" and k: "0 < k" "k < n" "n \<le> length a"
    and lt: "load x < load (a ! ((k - 1) div 2))"
  shows "up_inv (a[k := x]) n k"
  unfolding up_inv_def le_parent_def
proof (intro conjI allI impI)
  have A: "\<And>i. 0 < i \<Longrightarrow> i < n \<Longrightarrow> load (a ! ((i - 1) div 2)) \<le> load (a ! i)"
    using h by (simp add: heap_upto_def le_parent_def)
  {
    fix i assume i: "0 < i \<and> i < n \<and> i \<noteq> k"
    show "load (a[k := x] ! ((i - 1) div 2)) \<le> load (a[k := x] ! i)"
    proof (cases "(i - 1) div 2 = k")
      case True
      have "load (a ! ((k - 1) div 2)) \<le> load (a ! k)" using A k by simp
      moreover have "load (a ! k) \<le> load (a ! i)" using A [of i] i True by simp
      ultimately show ?thesis using lt i True k by simp
    next
      case False
      then show ?thesis using A [of i] i by simp
    qed
  next
    fix c assume c: "0 < k \<and> 0 < c \<and> c < n \<and> (c - 1) div 2 = k"
    then have ck: "c \<noteq> k" "(k - 1) div 2 \<noteq> k" by linarith+
    have "load (a ! ((k - 1) div 2)) \<le> load (a ! k)" using A k by simp
    moreover have "load (a ! k) \<le> load (a ! c)" using A [of c] c by simp
    ultimately show "load (a[k := x] ! ((k - 1) div 2)) \<le> load (a[k := x] ! c)"
      using ck by simp
  }
qed

lemma down_inv_increase:
  assumes h: "heap_upto a n" and k: "k < n" "n \<le> length a"
    and ge: "k = 0 \<or> load (a ! ((k - 1) div 2)) \<le> load x"
  shows "down_inv (a[k := x]) n k"
  unfolding down_inv_def le_parent_def
proof (intro conjI allI impI)
  have A: "\<And>i. 0 < i \<Longrightarrow> i < n \<Longrightarrow> load (a ! ((i - 1) div 2)) \<le> load (a ! i)"
    using h by (simp add: heap_upto_def le_parent_def)
  {
    fix i assume i: "0 < i \<and> i < n \<and> (i - 1) div 2 \<noteq> k"
    show "load (a[k := x] ! ((i - 1) div 2)) \<le> load (a[k := x] ! i)"
    proof (cases "i = k")
      case True
      then show ?thesis using ge i k by simp
    next
      case False
      then show ?thesis using A [of i] i by simp
    qed
  next
    fix c assume c: "0 < k \<and> 0 < c \<and> c < n \<and> (c - 1) div 2 = k"
    then have ck: "c \<noteq> k" "(k - 1) div 2 \<noteq> k" by linarith+
    have "load (a ! ((k - 1) div 2)) \<le> load (a ! k)" using A k c by simp
    moreover have "load (a ! k) \<le> load (a ! c)" using A [of c] c by simp
    ultimately show "load (a[k := x] ! ((k - 1) div 2)) \<le> load (a[k := x] ! c)"
      using ck by simp
  }
qed

lemma updateHeap_ok:
  assumes wf: "heap_wf heap" and ok: "heap_ok heap"
  shows "heap_ok (updateHeap heap sid l)"
proof (cases "findIndex heap sid 0")
  case None
  then show ?thesis using ok by (simp add: updateHeap_def)
next
  case (Some k)
  let ?a = "arr heap" and ?n = "size_h heap"
  let ?x = "(?a ! k)\<lparr>load := l\<rparr>"
  let ?h1 = "heap\<lparr>arr := ?a[k := ?x]\<rparr>"
  let ?p = "(k - 1) div 2"
  have k: "k < ?n" "?n \<le> length ?a" using findIndex_Some [OF Some] wf by (simp_all add: heap_wf_def)
  have up: "heap_upto ?a ?n" using ok by (simp add: heap_ok_upto)
  have xk: "arr ?h1 ! k = ?x" using k by simp
  show ?thesis
  proof (cases "0 < k \<and> l < load (?a ! ?p)")
    case True
    then have pk: "?p \<noteq> k" by linarith
    have "up_inv (arr ?h1) ?n k" using up_inv_decrease [OF up _ k, of ?x] True by simp
    then have "heap_upto (arr (heapifyUp ?h1 k)) ?n"
      using heapifyUp_heap_upto [of ?h1 ?n k] k by simp
    moreover have "updateHeap heap sid l = heapifyUp ?h1 k"
      using Some True pk k by (simp add: updateHeap_def Let_def)
    ultimately show ?thesis by (simp add: heap_ok_upto)
  next
    case False
    have "down_inv (arr ?h1) ?n k" using down_inv_increase [OF up k, of ?x] False by auto
    then have "heap_upto (arr (heapifyDown ?h1 k)) ?n"
      using heapifyDown_heap_upto [of ?h1 k] k by simp
    moreover have "updateHeap heap sid l = heapifyDown ?h1 k"
    proof (cases "k = 0")
      case True
      then show ?thesis using Some by (simp add: updateHeap_def Let_def)
    next
      case F: False
      then have "?p \<noteq> k" by linarith
      then show ?thesis using Some False F k by (simp add: updateHeap_def Let_def)
    qed
    ultimately show ?thesis by (simp add: heap_ok_upto)
  qed
qed

lemma updateHeap_entries:
  assumes wf: "heap_wf heap" and f: "findIndex heap sid 0 = Some k"
  shows "mset (entries (updateHeap heap sid l))
         = add_mset ((arr heap ! k)\<lparr>load := l\<rparr>) (mset (entries heap) - {#arr heap ! k#})"
proof -
  let ?a = "arr heap" and ?n = "size_h heap"
  let ?x = "(?a ! k)\<lparr>load := l\<rparr>"
  let ?h1 = "heap\<lparr>arr := ?a[k := ?x]\<rparr>"
  have k: "k < ?n" "?n \<le> length ?a" using findIndex_Some [OF f] wf by (simp_all add: heap_wf_def)
  have "updateHeap heap sid l = heapifyUp ?h1 k \<or> updateHeap heap sid l = heapifyDown ?h1 k"
    using f by (simp add: updateHeap_def Let_def)
  then have "mset (take ?n (arr (updateHeap heap sid l))) = mset (take ?n (arr ?h1))"
    using heapifyUp_mset [of k ?n ?h1] heapifyDown_mset [of k ?h1] k by auto
  moreover have "mset (take ?n (arr ?h1)) = add_mset ?x (mset (take ?n ?a) - {#?a ! k#})"
    using mset_update [of k "take ?n ?a" ?x] k by (simp add: take_update_swap)
  ultimately show ?thesis by (simp add: entries_def)
qed

section \<open>Heap operations\<close>

lemma insertHeap_frame:
  "size_h (insertHeap heap sid l) = (if size_h heap < capacity_h heap then size_h heap + 1 else size_h heap)"
  "capacity_h (insertHeap heap sid l) = capacity_h heap"
  by (simp_all add: insertHeap_def Let_def)


lemmas heap_eval = createMinHeap_def insertHeap_def extractMin_def updateHeap_def swap_nodes_def
  heapifyUp.simps heapifyDown.simps findIndex.simps Let_def heap_wf_def heap_ok_def entries_def



text \<open>
  Claim C3. On a non-empty well-formed heap with the min-heap property \<^verbatim>\<open>extractMin\<close>
  returns a live entry whose load is minimal among the live entries; the heap left behind
  holds exactly the other entries (as a multiset) and has the min-heap property again.
\<close>

theorem extractMin_spec:
  assumes "heap_wf heap" and "heap_ok heap" and "0 < size_h heap"
  shows "\<exists>m heap'. extractMin heap = Some (m, heap')
           \<and> m \<in> set (entries heap)
           \<and> (\<forall>e \<in> set (entries heap). load m \<le> load e)
           \<and> mset (entries heap') = mset (entries heap) - {#m#}
           \<and> heap_ok heap' \<and> heap_wf heap'"
proof -
  from extractMin_correct [OF assms] obtain m heap' where
    "extractMin heap = Some (m, heap')" "\<And>e. e \<in> set (entries heap) \<Longrightarrow> load m \<le> load e"
    "m \<in> set (entries heap)" "mset (entries heap') = mset (entries heap) - {#m#}"
    "heap_ok heap'" "heap_wf heap'" by metis
  then show ?thesis by blast
qed

theorem extractMin_spec_witness:
  "heap_wf heap3 \<and> heap_ok heap3 \<and> 0 < size_h heap3 \<and>
   (\<exists>m heap'. extractMin heap3 = Some (m, heap')
           \<and> m \<in> set (entries heap3)
           \<and> (\<forall>e \<in> set (entries heap3). load m \<le> load e)
           \<and> mset (entries heap') = mset (entries heap3) - {#m#}
           \<and> heap_ok heap' \<and> heap_wf heap')"
proof -
  have a: "heap_wf heap3" by (simp add: heap3_def heap_eval)
  have b: "heap_ok heap3" by code_simp
  have c: "0 < size_h heap3" by (simp add: heap3_def)
  show ?thesis using extractMin_spec [OF a b c] a b c by simp
qed

section \<open>Edge validation\<close>

lemma edgeExists_walk_iff: "edgeExists_walk xs dest \<noteq> 0 \<longleftrightarrow> dest \<in> set xs"
  by (induction xs) auto

lemma addEdge_reject:
  "src < 0 \<or> numServers graph \<le> src \<or> dest < 0 \<or> numServers graph \<le> dest \<or> src = dest
     \<or> dest \<in> set (adjList graph ! nat src)
   \<Longrightarrow> addEdge graph src dest = (0, graph)"
  by (auto simp: addEdge_def edgeExists_def edgeExists_walk_iff)

lemma addEdge_accept:
  assumes "graph_wf graph" "0 \<le> src" "src < numServers graph" "0 \<le> dest" "dest < numServers graph"
    "src \<noteq> dest" "dest \<notin> set (adjList graph ! nat src)"
  shows "addEdge graph src dest
         = (1, graph\<lparr>adjList := (adjList graph)[nat src := dest # adjList graph ! nat src]\<rparr>)"
    and "adjList (snd (addEdge graph src dest)) ! nat src = dest # adjList graph ! nat src"
proof -
  show 1: "addEdge graph src dest
         = (1, graph\<lparr>adjList := (adjList graph)[nat src := dest # adjList graph ! nat src]\<rparr>)"
    using assms by (auto simp: addEdge_def edgeExists_def edgeExists_walk_iff)
  have "nat src < length (adjList graph)" using assms by (auto simp: graph_wf_def)
  then show "adjList (snd (addEdge graph src dest)) ! nat src = dest # adjList graph ! nat src"
    by (simp add: 1)
qed

lemma addEdge_present:
  assumes "graph_wf graph" "0 \<le> src" "src < numServers graph" "0 \<le> dest" "dest < numServers graph"
    "src \<noteq> dest"
  shows "dest \<in> set (adjList (snd (addEdge graph src dest)) ! nat src)"
proof (cases "dest \<in> set (adjList graph ! nat src)")
  case True
  then show ?thesis by (simp add: addEdge_reject)
next
  case False
  then show ?thesis using addEdge_accept(2) [OF assms] by simp
qed

lemma addEdge_numServers: "numServers (snd (addEdge graph src dest)) = numServers graph"
  by (simp add: addEdge_def)

lemma addEdge_wf: "graph_wf graph \<Longrightarrow> graph_wf (snd (addEdge graph src dest))"
  by (simp add: addEdge_def graph_wf_def)

text \<open>
  Claim C8. On a well-formed graph \<^verbatim>\<open>addEdge\<close> returns 0 and leaves the graph as it is when
  the source or the destination is outside \<open>[0, N)\<close>, when both are the same server, or
  when the destination is already in the source's adjacency list. In every other case it
  returns 1 and puts the destination at the head of the source's list, the other lists
  staying as they are. On a graph of 6 servers the edges (2,2) and (2,99) are rejected and
  so is a second addition of (2,3).
\<close>

theorem addEdge_validation:
  assumes "graph_wf graph"
  shows "((src < 0 \<or> numServers graph \<le> src \<or> dest < 0 \<or> numServers graph \<le> dest
            \<or> src = dest \<or> dest \<in> set (adjList graph ! nat src))
          \<longrightarrow> addEdge graph src dest = (0, graph))
       \<and> (\<not> (src < 0 \<or> numServers graph \<le> src \<or> dest < 0 \<or> numServers graph \<le> dest
            \<or> src = dest \<or> dest \<in> set (adjList graph ! nat src))
          \<longrightarrow> fst (addEdge graph src dest) = 1
              \<and> numServers (snd (addEdge graph src dest)) = numServers graph
              \<and> length (adjList (snd (addEdge graph src dest))) = length (adjList graph)
              \<and> adjList (snd (addEdge graph src dest)) ! nat src = dest # adjList graph ! nat src
              \<and> (\<forall>i. i \<noteq> nat src \<longrightarrow> adjList (snd (addEdge graph src dest)) ! i = adjList graph ! i))
       \<and> (numServers graph = 6
          \<longrightarrow> addEdge graph 2 2 = (0, graph)
              \<and> addEdge graph 2 99 = (0, graph)
              \<and> addEdge (snd (addEdge graph 2 3)) 2 3 = (0, snd (addEdge graph 2 3)))"
proof (intro conjI impI)
  assume "src < 0 \<or> numServers graph \<le> src \<or> dest < 0 \<or> numServers graph \<le> dest
            \<or> src = dest \<or> dest \<in> set (adjList graph ! nat src)"
  then show "addEdge graph src dest = (0, graph)" by (rule addEdge_reject)
next
  assume a: "\<not> (src < 0 \<or> numServers graph \<le> src \<or> dest < 0 \<or> numServers graph \<le> dest
            \<or> src = dest \<or> dest \<in> set (adjList graph ! nat src))"
  then have b: "0 \<le> src" "src < numServers graph" "0 \<le> dest" "dest < numServers graph"
    "src \<noteq> dest" "dest \<notin> set (adjList graph ! nat src)" by auto
  note acc = addEdge_accept [OF assms b]
  show "fst (addEdge graph src dest) = 1" by (simp add: acc(1))
  show "numServers (snd (addEdge graph src dest)) = numServers graph" by (rule addEdge_numServers)
  show "length (adjList (snd (addEdge graph src dest))) = length (adjList graph)"
    by (simp add: acc(1))
  show "adjList (snd (addEdge graph src dest)) ! nat src = dest # adjList graph ! nat src"
    by (rule acc(2))
  show "\<forall>i. i \<noteq> nat src \<longrightarrow> adjList (snd (addEdge graph src dest)) ! i = adjList graph ! i"
    by (simp add: acc(1))
next
  assume n: "numServers graph = 6"
  show "addEdge graph 2 2 = (0, graph)" by (simp add: addEdge_reject)
  show "addEdge graph 2 99 = (0, graph)" using n by (simp add: addEdge_reject)
  have "3 \<in> set (adjList (snd (addEdge graph 2 3)) ! nat 2)"
    using addEdge_present [OF assms, of 2 3] n by simp
  then show "addEdge (snd (addEdge graph 2 3)) 2 3 = (0, snd (addEdge graph 2 3))"
    by (simp add: addEdge_reject)
qed

theorem addEdge_validation_witness:
  "graph_wf (createGraph 6)
   \<and> addEdge (createGraph 6) 2 2 = (0, createGraph 6)
   \<and> addEdge (createGraph 6) 2 99 = (0, createGraph 6)
   \<and> fst (addEdge (createGraph 6) 2 3) = 1
   \<and> adjList (snd (addEdge (createGraph 6) 2 3)) ! 2 = [3]
   \<and> addEdge (snd (addEdge (createGraph 6) 2 3)) 2 3 = (0, snd (addEdge (createGraph 6) 2 3))"
proof -
  have wf: "graph_wf (createGraph 6)" by (simp add: graph_wf_def createGraph_def)
  have n: "numServers (createGraph 6) = 6" by (simp add: createGraph_def)
  have e: "adjList (createGraph 6) ! nat 2 = []" by (simp add: createGraph_def)
  show ?thesis
    using addEdge_validation [OF wf, of 2 3] wf n e by simp
qed

section \<open>The yes/no prompt\<close>

lemma clearBuffer_line: "CHR 0x0A \<notin> set line \<Longrightarrow> clearBuffer (line @ CHR 0x0A # rest) = rest"
  by (induction line) auto

lemma getYesNoInput_line:
  assumes "CHR 0x0A \<notin> set line" and "c \<noteq> CHR 0x0A"
  shows "getYesNoInput (c # line @ CHR 0x0A # rest) =
           (if c = CHR ''Y'' \<or> c = CHR ''y'' then Some (CHR ''Y'', rest, 0)
            else if c = CHR ''N'' \<or> c = CHR ''n'' then Some (CHR ''N'', rest, 0)
            else map_option (\<lambda>(r, inp, k). (r, inp, Suc k)) (getYesNoInput rest))"
  using assms by (simp add: getYesNoInput.simps clearBuffer_line Let_def)

text \<open>
  On an empty line \<^verbatim>\<open>scanf("%c")\<close> takes the newline itself as the answer, and
  \<^verbatim>\<open>clearBuffer\<close> then discards the whole of the following line, whatever its first
  character is.
\<close>

lemma getYesNoInput_blank:
  assumes "CHR 0x0A \<notin> set line"
  shows "getYesNoInput (CHR 0x0A # line @ CHR 0x0A # rest)
         = map_option (\<lambda>(r, inp, k). (r, inp, Suc k)) (getYesNoInput rest)"
  using assms by (simp add: getYesNoInput.simps clearBuffer_line Let_def)

text \<open>
  Claim C10 fails on the code after an empty line. The input is an empty line, the line
  \<open>y\<close> and the line \<open>n\<close>: the line \<open>y\<close> is never looked at, one rejection is reported
  and the answer is \<open>N\<close>, taken from the third line. Without the empty line the same
  input is answered \<open>Y\<close> from the line \<open>y\<close>, and the line \<open>n\<close> is left unread.
\<close>

theorem getYesNoInput_empty_line:
  "getYesNoInput (CHR 0x0A # ''y'' @ CHR 0x0A # ''n'' @ [CHR 0x0A]) = Some (CHR ''N'', [], 1)
   \<and> getYesNoInput (''y'' @ CHR 0x0A # ''n'' @ [CHR 0x0A]) = Some (CHR ''Y'', ''n'' @ [CHR 0x0A], 0)"
  by (simp add: getYesNoInput.simps Let_def)

section \<open>The scans over the registry\<close>

lemma sumLoads_eq: "sumLoads servers i t = t + sum_list (map currentLoad (drop i servers))"
proof (induction servers i t rule: sumLoads.induct)
  case (1 servers i totalLoad)
  show ?case
  proof (cases "i < length servers")
    case True
    have "drop i servers = servers ! i # drop (i + 1) servers"
      using True by (simp add: Cons_nth_drop_Suc)
    then show ?thesis using True "1.IH" by (subst sumLoads.simps) simp
  next
    case False
    then show ?thesis by (subst sumLoads.simps) simp
  qed
qed

lemma calculateAverageLoad_eq:
  "calculateAverageLoad servers = sum_list (map currentLoad servers) / of_nat (length servers)"
  by (simp add: calculateAverageLoad_def sumLoads_eq)

lemma mostLoaded_loop_spec:
  assumes "m < i" "i \<le> length servers" "maxLoad = currentLoad (servers ! m)"
    and "\<forall>j<i. currentLoad (servers ! j) \<le> maxLoad"
    and "\<forall>j<m. currentLoad (servers ! j) < maxLoad"
  shows "mostLoaded_loop servers i m maxLoad < length servers
       \<and> (\<forall>j<length servers. currentLoad (servers ! j)
              \<le> currentLoad (servers ! mostLoaded_loop servers i m maxLoad))
       \<and> (\<forall>j<mostLoaded_loop servers i m maxLoad. currentLoad (servers ! j)
              < currentLoad (servers ! mostLoaded_loop servers i m maxLoad))"
  using assms
proof (induction servers i m maxLoad rule: mostLoaded_loop.induct)
  case (1 servers i mostLoaded maxLoad)
  show ?case
  proof (cases "i < length servers")
    case False
    then have "mostLoaded_loop servers i mostLoaded maxLoad = mostLoaded"
      by (subst mostLoaded_loop.simps) simp
    moreover have "i = length servers" using False "1.prems" by simp
    ultimately show ?thesis using "1.prems" by auto
  next
    case True
    show ?thesis
    proof (cases "currentLoad (servers ! i) > maxLoad")
      case gt: True
      have a: "\<forall>j<i + 1. currentLoad (servers ! j) \<le> currentLoad (servers ! i)"
        using "1.prems"(4) gt by (auto simp: less_Suc_eq)
      have b: "\<forall>j<i. currentLoad (servers ! j) < currentLoad (servers ! i)"
        using "1.prems"(4) gt by auto
      have "mostLoaded_loop servers i mostLoaded maxLoad
            = mostLoaded_loop servers (i + 1) i (currentLoad (servers ! i))"
        using True gt by (subst mostLoaded_loop.simps) simp
      then show ?thesis using "1.IH"(1) [OF True gt _ _ refl a b] True by simp
    next
      case le: False
      have a: "\<forall>j<i + 1. currentLoad (servers ! j) \<le> maxLoad"
        using "1.prems"(4) le by (auto simp: less_Suc_eq)
      have "mostLoaded_loop servers i mostLoaded maxLoad
            = mostLoaded_loop servers (i + 1) mostLoaded maxLoad"
        using True le by (subst mostLoaded_loop.simps) simp
      then show ?thesis using "1.IH"(2) [OF True le _ _ "1.prems"(3) a "1.prems"(5)] True "1.prems"(1) by simp
    qed
  qed
qed

lemma leastLoaded_loop_spec:
  assumes "m < i" "i \<le> length servers" "minLoad = currentLoad (servers ! m)"
    and "\<forall>j<i. minLoad \<le> currentLoad (servers ! j)"
    and "\<forall>j<m. minLoad < currentLoad (servers ! j)"
  shows "leastLoaded_loop servers i m minLoad < length servers
       \<and> (\<forall>j<length servers. currentLoad (servers ! leastLoaded_loop servers i m minLoad)
              \<le> currentLoad (servers ! j))
       \<and> (\<forall>j<leastLoaded_loop servers i m minLoad.
              currentLoad (servers ! leastLoaded_loop servers i m minLoad) < currentLoad (servers ! j))"
  using assms
proof (induction servers i m minLoad rule: leastLoaded_loop.induct)
  case (1 servers i leastLoaded minLoad)
  show ?case
  proof (cases "i < length servers")
    case False
    then have "leastLoaded_loop servers i leastLoaded minLoad = leastLoaded"
      by (subst leastLoaded_loop.simps) simp
    moreover have "i = length servers" using False "1.prems" by simp
    ultimately show ?thesis using "1.prems" by auto
  next
    case True
    show ?thesis
    proof (cases "currentLoad (servers ! i) < minLoad")
      case lt: True
      have a: "\<forall>j<i + 1. currentLoad (servers ! i) \<le> currentLoad (servers ! j)"
        using "1.prems"(4) lt by (auto simp: less_Suc_eq)
      have b: "\<forall>j<i. currentLoad (servers ! i) < currentLoad (servers ! j)"
        using "1.prems"(4) lt by auto
      have "leastLoaded_loop servers i leastLoaded minLoad
            = leastLoaded_loop servers (i + 1) i (currentLoad (servers ! i))"
        using True lt by (subst leastLoaded_loop.simps) simp
      then show ?thesis using "1.IH"(1) [OF True lt _ _ refl a b] True by simp
    next
      case ge: False
      have a: "\<forall>j<i + 1. minLoad \<le> currentLoad (servers ! j)"
        using "1.prems"(4) ge by (auto simp: less_Suc_eq)
      have "leastLoaded_loop servers i leastLoaded minLoad
            = leastLoaded_loop servers (i + 1) leastLoaded minLoad"
        using True ge by (subst leastLoaded_loop.simps) simp
      then show ?thesis using "1.IH"(2) [OF True ge _ _ "1.prems"(3) a "1.prems"(5)] True "1.prems"(1) by simp
    qed
  qed
qed

lemma findMostLoadedServer_spec:
  assumes "servers \<noteq> []"
  shows "findMostLoadedServer servers < length servers"
    and "\<And>j. j < length servers \<Longrightarrow> currentLoad (servers ! j)
              \<le> currentLoad (servers ! findMostLoadedServer servers)"
    and "\<And>j. j < findMostLoadedServer servers \<Longrightarrow> currentLoad (servers ! j)
              < currentLoad (servers ! findMostLoadedServer servers)"
proof -
  have "0 < (1::nat)" "1 \<le> length servers" using assms by (simp_all add: Suc_le_eq)
  from mostLoaded_loop_spec [OF this refl] 
  have *: "mostLoaded_loop servers 1 0 (currentLoad (servers ! 0)) < length servers
       \<and> (\<forall>j<length servers. currentLoad (servers ! j)
              \<le> currentLoad (servers ! mostLoaded_loop servers 1 0 (currentLoad (servers ! 0))))
       \<and> (\<forall>j<mostLoaded_loop servers 1 0 (currentLoad (servers ! 0)). currentLoad (servers ! j)
              < currentLoad (servers ! mostLoaded_loop servers 1 0 (currentLoad (servers ! 0))))"
    by simp
  show "findMostLoadedServer servers < length servers"
    and "\<And>j. j < length servers \<Longrightarrow> currentLoad (servers ! j)
              \<le> currentLoad (servers ! findMostLoadedServer servers)"
    and "\<And>j. j < findMostLoadedServer servers \<Longrightarrow> currentLoad (servers ! j)
              < currentLoad (servers ! findMostLoadedServer servers)"
    using * by (simp_all add: findMostLoadedServer_def)
qed

lemma findLeastLoadedServer_spec:
  assumes "servers \<noteq> []"
  shows "findLeastLoadedServer servers < length servers"
    and "\<And>j. j < length servers \<Longrightarrow> currentLoad (servers ! findLeastLoadedServer servers)
              \<le> currentLoad (servers ! j)"
    and "\<And>j. j < findLeastLoadedServer servers \<Longrightarrow> currentLoad (servers ! findLeastLoadedServer servers)
              < currentLoad (servers ! j)"
proof -
  have "0 < (1::nat)" "1 \<le> length servers" using assms by (simp_all add: Suc_le_eq)
  from leastLoaded_loop_spec [OF this refl] 
  have *: "leastLoaded_loop servers 1 0 (currentLoad (servers ! 0)) < length servers
       \<and> (\<forall>j<length servers. currentLoad (servers ! leastLoaded_loop servers 1 0 (currentLoad (servers ! 0)))
              \<le> currentLoad (servers ! j))
       \<and> (\<forall>j<leastLoaded_loop servers 1 0 (currentLoad (servers ! 0)).
              currentLoad (servers ! leastLoaded_loop servers 1 0 (currentLoad (servers ! 0))) < currentLoad (servers ! j))"
    by simp
  show "findLeastLoadedServer servers < length servers"
    and "\<And>j. j < length servers \<Longrightarrow> currentLoad (servers ! findLeastLoadedServer servers)
              \<le> currentLoad (servers ! j)"
    and "\<And>j. j < findLeastLoadedServer servers \<Longrightarrow> currentLoad (servers ! findLeastLoadedServer servers)
              < currentLoad (servers ! j)"
    using * by (simp_all add: findLeastLoadedServer_def)
qed

section \<open>Averages and migration\<close>

lemma addLoad_length [simp]: "length (addLoad servers i x) = length servers"
  by (simp add: addLoad_def)

lemma addLoad_nth:
  "j < length servers \<Longrightarrow> addLoad servers i x ! j
     = (if j = i then (servers ! j)\<lparr>currentLoad := currentLoad (servers ! j) + x\<rparr> else servers ! j)"
  by (simp add: addLoad_def)

lemma sum_list_update_rat:
  fixes xs :: "rat list"
  shows "i < length xs \<Longrightarrow> sum_list (xs[i := v]) = sum_list xs - xs ! i + v"
proof (induction xs arbitrary: i)
  case Nil
  then show ?case by simp
next
  case (Cons a xs)
  then show ?case by (cases i) simp_all
qed

lemma total_load_addLoad:
  "i < length servers \<Longrightarrow> total_load (addLoad servers i x) = total_load servers + x"
  by (simp add: total_load_def addLoad_def map_update sum_list_update_rat)

lemma total_load_le:
  assumes "\<And>j. j < length servers \<Longrightarrow> currentLoad (servers ! j) \<le> b"
  shows "total_load servers \<le> of_nat (length servers) * b"
proof -
  have "sum_list (map currentLoad servers) \<le> sum_list (map (\<lambda>_. b) servers)"
    by (rule sum_list_mono) (metis assms in_set_conv_nth)
  then show ?thesis by (simp add: total_load_def sum_list_triv)
qed

lemma total_load_ge:
  assumes "\<And>j. j < length servers \<Longrightarrow> b \<le> currentLoad (servers ! j)"
  shows "of_nat (length servers) * b \<le> total_load servers"
proof -
  have "sum_list (map (\<lambda>_. b) servers) \<le> sum_list (map currentLoad servers)"
    by (rule sum_list_mono) (metis assms in_set_conv_nth)
  then show ?thesis by (simp add: total_load_def sum_list_triv)
qed

lemma total_load_less:
  assumes le: "\<And>j. j < length servers \<Longrightarrow> currentLoad (servers ! j) \<le> b"
    and k: "k < length servers" "currentLoad (servers ! k) < b"
  shows "total_load servers < of_nat (length servers) * b"
proof -
  let ?s = "addLoad servers k (b - currentLoad (servers ! k))"
  have "total_load ?s \<le> of_nat (length ?s) * b"
  proof (rule total_load_le)
    fix j assume "j < length ?s"
    then show "currentLoad (?s ! j) \<le> b" using le [of j] by (simp add: addLoad_nth)
  qed
  then show ?thesis using k by (simp add: total_load_addLoad)
qed

lemma average_le_max:
  assumes "servers \<noteq> []"
  shows "calculateAverageLoad servers \<le> currentLoad (servers ! findMostLoadedServer servers)"
proof -
  have "total_load servers \<le> of_nat (length servers) * currentLoad (servers ! findMostLoadedServer servers)"
    by (rule total_load_le) (rule findMostLoadedServer_spec(2) [OF assms])
  moreover have "0 < (of_nat (length servers) :: rat)" using assms by simp
  ultimately show ?thesis
    by (simp add: calculateAverageLoad_eq total_load_def [symmetric] pos_divide_le_eq mult.commute)
qed

lemma average_ge_min:
  assumes "servers \<noteq> []" and "\<And>j. j < length servers \<Longrightarrow> b \<le> currentLoad (servers ! j)"
  shows "b \<le> calculateAverageLoad servers"
proof -
  have "of_nat (length servers) * b \<le> total_load servers"
    by (rule total_load_ge) (rule assms(2))
  moreover have "0 < (of_nat (length servers) :: rat)" using assms by simp
  ultimately show ?thesis
    by (simp add: calculateAverageLoad_eq total_load_def [symmetric] pos_le_divide_eq mult.commute)
qed

lemma average_less_max:
  assumes "servers \<noteq> []"
    and "currentLoad (servers ! findLeastLoadedServer servers)
         < currentLoad (servers ! findMostLoadedServer servers)"
  shows "calculateAverageLoad servers < currentLoad (servers ! findMostLoadedServer servers)"
proof -
  have "total_load servers < of_nat (length servers) * currentLoad (servers ! findMostLoadedServer servers)"
    by (rule total_load_less [OF findMostLoadedServer_spec(2) [OF assms(1)]
          findLeastLoadedServer_spec(1) [OF assms(1)] assms(2)])
  moreover have "0 < (of_nat (length servers) :: rat)" using assms by simp
  ultimately show ?thesis
    by (simp add: calculateAverageLoad_eq total_load_def [symmetric] pos_divide_less_eq mult.commute)
qed

text \<open>With equal extreme loads both scans stop at index 0.\<close>

lemma same_extremes:
  assumes "servers \<noteq> []"
    and "currentLoad (servers ! findLeastLoadedServer servers)
         = currentLoad (servers ! findMostLoadedServer servers)"
  shows "findMostLoadedServer servers = 0" and "findLeastLoadedServer servers = 0"
    and "calculateAverageLoad servers = currentLoad (servers ! findMostLoadedServer servers)"
proof -
  let ?hi = "findMostLoadedServer servers" and ?lo = "findLeastLoadedServer servers"
  note hi = findMostLoadedServer_spec [OF assms(1)] and lo = findLeastLoadedServer_spec [OF assms(1)]
  have n: "0 < length servers" using assms by simp
  have eq: "currentLoad (servers ! j) = currentLoad (servers ! ?hi)" if "j < length servers" for j
    using hi(2) [OF that] lo(2) [OF that] assms(2) by simp
  show "?hi = 0"
  proof (rule ccontr)
    assume "?hi \<noteq> 0"
    then have "0 < ?hi" by simp
    from hi(3) [OF this] eq [OF n] show False by simp
  qed
  show "?lo = 0"
  proof (rule ccontr)
    assume "?lo \<noteq> 0"
    then have "0 < ?lo" by simp
    from lo(3) [OF this] eq [OF n] assms(2) show False by simp
  qed
  have "calculateAverageLoad servers \<le> currentLoad (servers ! ?hi)"
    by (rule average_le_max [OF assms(1)])
  moreover have "currentLoad (servers ! ?hi) \<le> calculateAverageLoad servers"
    by (rule average_ge_min [OF assms(1)]) (simp add: eq)
  ultimately show "calculateAverageLoad servers = currentLoad (servers ! ?hi)" by simp
qed

lemma migration_zero_if_same:
  assumes "servers \<noteq> []" and "findMostLoadedServer servers = findLeastLoadedServer servers"
  shows "migrationAmount servers = 0"
  using same_extremes(3) [OF assms(1)] assms(2) by (simp add: migrationAmount_def)

lemma rebalanceLoads_fire:
  assumes "servers \<noteq> []" and "imbalance servers > threshold"
  shows "rebalanceLoads servers threshold heap =
     Some (addLoad (addLoad servers (findMostLoadedServer servers) (- migrationAmount servers))
                   (findLeastLoadedServer servers) (migrationAmount servers),
           updateHeap
             (updateHeap heap (findMostLoadedServer servers)
                (currentLoad (addLoad (addLoad servers (findMostLoadedServer servers) (- migrationAmount servers))
                   (findLeastLoadedServer servers) (migrationAmount servers) ! findMostLoadedServer servers)))
             (findLeastLoadedServer servers)
             (currentLoad (addLoad (addLoad servers (findMostLoadedServer servers) (- migrationAmount servers))
                   (findLeastLoadedServer servers) (migrationAmount servers) ! findLeastLoadedServer servers)))"
  using assms by (simp add: rebalanceLoads_def Let_def)

lemma rebalanceLoads_idle:
  assumes "servers \<noteq> []" and "\<not> imbalance servers > threshold"
  shows "rebalanceLoads servers threshold heap = Some (servers, heap)"
  using assms by (simp add: rebalanceLoads_def Let_def)

text \<open>The servers after a migration.\<close>

lemma migrated_servers:
  assumes ne: "servers \<noteq> []"
  defines "hi \<equiv> findMostLoadedServer servers" and "lo \<equiv> findLeastLoadedServer servers"
    and "m \<equiv> migrationAmount servers"
  defines "servers' \<equiv> addLoad (addLoad servers hi (- m)) lo m"
  shows "length servers' = length servers"
    and "currentLoad (servers' ! hi) = currentLoad (servers ! hi) - m"
    and "currentLoad (servers' ! lo) = currentLoad (servers ! lo) + m"
    and "\<And>j. j \<noteq> hi \<Longrightarrow> j \<noteq> lo \<Longrightarrow> servers' ! j = servers ! j"
    and "\<And>j. j < length servers \<Longrightarrow> capacity (servers' ! j) = capacity (servers ! j)"
    and "total_load servers' = total_load servers"
proof -
  have hi: "hi < length servers" and lo: "lo < length servers"
    unfolding hi_def lo_def
    using findMostLoadedServer_spec(1) [OF ne] findLeastLoadedServer_spec(1) [OF ne] by simp_all
  have z: "hi = lo \<Longrightarrow> m = 0"
    unfolding hi_def lo_def m_def by (rule migration_zero_if_same [OF ne])
  show "length servers' = length servers" by (simp add: servers'_def)
  show "currentLoad (servers' ! hi) = currentLoad (servers ! hi) - m"
    using hi lo z by (auto simp: servers'_def addLoad_nth)
  show "currentLoad (servers' ! lo) = currentLoad (servers ! lo) + m"
    using hi lo z by (auto simp: servers'_def addLoad_nth)
  show "\<And>j. j \<noteq> hi \<Longrightarrow> j \<noteq> lo \<Longrightarrow> servers' ! j = servers ! j"
    by (simp add: servers'_def addLoad_def)
  show "\<And>j. j < length servers \<Longrightarrow> capacity (servers' ! j) = capacity (servers ! j)"
    by (simp add: servers'_def addLoad_nth)
  show "total_load servers' = total_load servers"
    using hi lo by (simp add: servers'_def total_load_addLoad)
qed

subsection \<open>Two servers\<close>

lemma two_most: "findMostLoadedServer [a, b] = (if currentLoad b > currentLoad a then 1 else 0)"
  by (simp add: findMostLoadedServer_def mostLoaded_loop.simps)

lemma two_least: "findLeastLoadedServer [a, b] = (if currentLoad b < currentLoad a then 1 else 0)"
  by (simp add: findLeastLoadedServer_def leastLoaded_loop.simps)

lemma two_imbalance:
  "imbalance [a, b] =
     (if currentLoad a < currentLoad b then getLoadPercentage b - getLoadPercentage a
      else if currentLoad b < currentLoad a then getLoadPercentage a - getLoadPercentage b
      else 0)"
  by (simp add: imbalance_def two_most two_least Let_def)

text \<open>
  Claim C4. When \<^verbatim>\<open>rebalanceLoads\<close> triggers, the amount migrated is half of the difference
  between the load of the most-loaded server and the mean load; the most-loaded server's
  load goes down by exactly that amount, the least-loaded server's load goes up by exactly
  that amount, no other server changes, and the sum of all loads is the same as before.
\<close>

theorem rebalance_conserves:
  assumes "servers \<noteq> []" and "imbalance servers > threshold"
  shows "\<exists>servers' heap'. rebalanceLoads servers threshold heap = Some (servers', heap')
     \<and> migrationAmount servers
         = (currentLoad (servers ! findMostLoadedServer servers)
            - sum_list (map currentLoad servers) / of_nat (length servers)) * (1 / 2)
     \<and> length servers' = length servers
     \<and> currentLoad (servers' ! findMostLoadedServer servers)
         = currentLoad (servers ! findMostLoadedServer servers) - migrationAmount servers
     \<and> currentLoad (servers' ! findLeastLoadedServer servers)
         = currentLoad (servers ! findLeastLoadedServer servers) + migrationAmount servers
     \<and> (\<forall>j. j \<noteq> findMostLoadedServer servers \<and> j \<noteq> findLeastLoadedServer servers
            \<longrightarrow> servers' ! j = servers ! j)
     \<and> sum_list (map currentLoad servers') = sum_list (map currentLoad servers)"
proof -
  note m = migrated_servers [OF assms(1)]
  have "migrationAmount servers
         = (currentLoad (servers ! findMostLoadedServer servers)
            - sum_list (map currentLoad servers) / of_nat (length servers)) * (1 / 2)"
    by (simp add: migrationAmount_def calculateAverageLoad_eq)
  then show ?thesis
    using rebalanceLoads_fire [OF assms, of heap] m(1,2,3,4) m(6) [unfolded total_load_def]
    by simp
qed

theorem rebalance_conserves_witness:
  "fleet_90_60 \<noteq> [] \<and> imbalance fleet_90_60 > 20
   \<and> migrationAmount fleet_90_60 = 15 / 2
   \<and> map currentLoad (fst (the (rebalanceLoads fleet_90_60 20 heap_90_60))) = [165 / 2, 135 / 2]
   \<and> (\<exists>servers' heap'. rebalanceLoads fleet_90_60 20 heap_90_60 = Some (servers', heap')
        \<and> sum_list (map currentLoad servers') = sum_list (map currentLoad fleet_90_60))"
proof -
  have a: "fleet_90_60 \<noteq> []" by (simp add: fleet_90_60_def)
  have b: "imbalance fleet_90_60 > 20" by (simp add: fleet_90_60_def two_imbalance getLoadPercentage_def)
  have c: "migrationAmount fleet_90_60 = 15 / 2"
    by (simp add: fleet_90_60_def migrationAmount_def two_most calculateAverageLoad_eq)
  have d: "map currentLoad (fst (the (rebalanceLoads fleet_90_60 20 heap_90_60))) = [165 / 2, 135 / 2]"
    using b c by (simp add: rebalanceLoads_def Let_def) (simp add: fleet_90_60_def two_most two_least addLoad_def)
  show ?thesis
    using rebalance_conserves [OF a b, of heap_90_60] a b c d by auto
qed

section \<open>Rounding to binary32\<close>

lemma bit_length_floorlog: "bit_length n = floorlog 2 (nat n)"
proof (induction n rule: bit_length.induct)
  case (1 n)
  show ?case
  proof (cases "0 < n")
    case True
    have d: "nat n div 2 = nat (n div 2)" by (simp add: nat_div_distrib)
    have "floorlog 2 (nat n) = floorlog 2 (nat n div 2) + 1"
      using True by (subst compute_floorlog) simp
    then show ?thesis using True 1 by (subst bit_length.simps) (simp add: d)
  next
    case False
    then show ?thesis by (subst bit_length.simps) (simp add: floorlog_def)
  qed
qed

lemma binade_floorlog:
  "binade x = (if 1 \<le> x then int (floorlog 2 (nat \<lfloor>x\<rfloor>)) - 1
               else - int (floorlog 2 (nat \<lceil>1 / x\<rceil> - 1)))"
proof -
  have "nat (\<lceil>1 / x\<rceil> - 1) = nat \<lceil>1 / x\<rceil> - 1" by (simp add: nat_diff_distrib')
  then show ?thesis by (simp add: binade_def bit_length_floorlog)
qed

lemma binade_bounds:
  assumes "0 < x"
  shows "2 powi binade x \<le> x" and "x < 2 powi (binade x + 1)"
proof -
  have "2 powi binade x \<le> x \<and> x < 2 powi (binade x + 1)"
  proof (cases "1 \<le> x")
    case True
    let ?n = "nat \<lfloor>x\<rfloor>"
    let ?k = "floorlog 2 ?n"
    have n: "0 < ?n" using True by simp
    from floorlog_bounds [OF n, of 2] have b: "2 ^ (?k - 1) \<le> ?n" "?n < 2 ^ ?k" by simp_all
    have k: "0 < ?k" using b(2) n by (cases ?k) simp_all
    have e: "binade x = int (?k - 1)" using True k by (simp add: binade_floorlog of_nat_diff)
    have fl: "int ?n = \<lfloor>x\<rfloor>" using True by simp
    have "int (2 ^ (?k - 1)) \<le> int ?n" using b(1) by (simp only: of_nat_le_iff)
    then have "(2::int) ^ (?k - 1) \<le> \<lfloor>x\<rfloor>" unfolding fl by simp
    then have "of_int ((2::int) ^ (?k - 1)) \<le> x" by (simp only: le_floor_iff)
    then have lo: "(2::rat) ^ (?k - 1) \<le> x" by simp
    have "int ?n < int (2 ^ ?k)" using b(2) by (simp only: of_nat_less_iff)
    then have "\<lfloor>x\<rfloor> < (2::int) ^ ?k" unfolding fl by simp
    then have "x < of_int ((2::int) ^ ?k)" by (simp only: floor_less_iff)
    then have hi: "x < 2 ^ ?k" by simp
    have p1: "(2::rat) powi binade x = 2 ^ (?k - 1)" by (simp only: e power_int_of_nat)
    have "binade x + 1 = int ?k" using e k by simp
    then have p2: "(2::rat) powi (binade x + 1) = 2 ^ ?k" by (simp only: power_int_of_nat)
    show ?thesis unfolding p1 p2 using lo hi by simp
  next
    case False
    let ?m = "nat \<lceil>1 / x\<rceil>"
    let ?k = "floorlog 2 (?m - 1)"
    have y: "1 < 1 / x" using False assms by simp
    then have c: "2 \<le> \<lceil>1 / x\<rceil>" by (simp add: le_ceiling_iff) 
    then have m: "0 < ?m - 1" by simp
    from floorlog_bounds [OF m, of 2] have b: "2 ^ (?k - 1) \<le> ?m - 1" "?m - 1 < 2 ^ ?k" by simp_all
    have m2: "2 \<le> ?m" using c by linarith
    have k: "0 < ?k"
    proof (rule ccontr)
      assume "\<not> 0 < ?k"
      then have "?m - 1 < 1" using b(2) by simp
      then show False using m2 by linarith
    qed
    have e: "binade x = - int ?k" using False by (simp add: binade_floorlog)
    have "0 \<le> \<lceil>1 / x\<rceil>" using c by linarith
    then have im: "int ?m = \<lceil>1 / x\<rceil>" by (rule nat_0_le)
    have "int (?m - 1) = int ?m - 1" using m2 by linarith
    then have cl: "int (?m - 1) = \<lceil>1 / x\<rceil> - 1" unfolding im .
    have "int (?m - 1) < int (2 ^ ?k)" using b(2) by (simp only: of_nat_less_iff)
    then have "\<lceil>1 / x\<rceil> \<le> (2::int) ^ ?k" unfolding cl by simp
    then have "1 / x \<le> of_int ((2::int) ^ ?k)" by (simp only: ceiling_le_iff)
    then have "1 / x \<le> 2 ^ ?k" by simp
    then have lo: "1 / 2 ^ ?k \<le> x" using assms by (simp add: field_simps)
    have "int (2 ^ (?k - 1)) \<le> int (?m - 1)" using b(1) by (simp only: of_nat_le_iff)
    then have "(2::int) ^ (?k - 1) < \<lceil>1 / x\<rceil>" unfolding cl by simp
    then have "of_int ((2::int) ^ (?k - 1)) < 1 / x" by (simp only: less_ceiling_iff)
    then have "(2::rat) ^ (?k - 1) < 1 / x" by simp
    then have hi: "x < 1 / 2 ^ (?k - 1)" using assms by (simp add: field_simps)
    have p1: "(2::rat) powi binade x = 1 / 2 ^ ?k"
      unfolding e by (simp add: power_int_minus field_simps)
    have "binade x + 1 = - int (?k - 1)" using e k by simp
    then have p2: "(2::rat) powi (binade x + 1) = 1 / 2 ^ (?k - 1)"
      by (simp only: power_int_minus power_int_of_nat inverse_eq_divide)
    show ?thesis unfolding p1 p2 using lo hi by simp
  qed
  then show "2 powi binade x \<le> x" and "x < 2 powi (binade x + 1)" by simp_all
qed

lemma binade_unique:
  assumes "2 powi e \<le> x" and "x < 2 powi (e + 1)"
  shows "binade x = e"
proof -
  have "(0::rat) < 2 powi e" by simp
  then have x: "0 < x" using assms(1) by (rule less_le_trans)
  note b = binade_bounds [OF x]
  have "(2::rat) powi e < 2 powi (binade x + 1)" using assms(1) b(2) by simp
  then have 1: "e < binade x + 1"
    by (metis power_int_increasing [of _ _ "2::rat"] not_le one_le_numeral)
  have "(2::rat) powi binade x < 2 powi (e + 1)" using assms(2) b(1) by simp
  then have 2: "binade x < e + 1"
    by (metis power_int_increasing [of _ _ "2::rat"] not_le one_le_numeral)
  from 1 2 show ?thesis by simp
qed

lemma half_even_of_int [simp]: "half_even (of_int n) = n"
  by (simp add: half_even_def)

lemma half_even_bounds: "q - 1 / 2 \<le> of_int (half_even q)" "of_int (half_even q) \<le> q + 1 / 2"
proof -
  define f where "f = \<lfloor>q\<rfloor>"
  have f: "of_int f \<le> q" "q < of_int f + 1" unfolding f_def by linarith+
  have h: "half_even q = (if q - of_int f < 1 / 2 then f
                           else if 1 / 2 < q - of_int f then f + 1
                           else if even f then f else f + 1)"
    by (simp add: half_even_def Let_def f_def)
  show "q - 1 / 2 \<le> of_int (half_even q)" "of_int (half_even q) \<le> q + 1 / 2"
    unfolding h using f by (auto split: if_splits)
qed

lemma half_even_mono:
  assumes "q \<le> q'"
  shows "half_even q \<le> half_even q'"
proof (cases "\<lfloor>q\<rfloor> = \<lfloor>q'\<rfloor>")
  case True
  then show ?thesis using assms by (auto simp: half_even_def Let_def)
next
  case False
  then have "\<lfloor>q\<rfloor> + 1 \<le> \<lfloor>q'\<rfloor>" using floor_mono [OF assms] by simp
  moreover have "half_even q \<le> \<lfloor>q\<rfloor> + 1" by (auto simp: half_even_def Let_def)
  moreover have "\<lfloor>q'\<rfloor> \<le> half_even q'" by (auto simp: half_even_def Let_def)
  ultimately show ?thesis by simp
qed

lemma powi_split: "(2::rat) powi e = 2 powi (e - 23) * 2 ^ 23"
proof -
  have "(2::rat) powi (e - 23 + 23) = 2 powi (e - 23) * 2 powi 23"
    by (rule power_int_add) simp
  then show ?thesis by simp
qed

lemma powi_Suc: "(2::rat) powi (e + 1) = 2 * 2 powi e"
  by (simp add: power_int_add)

text \<open>The scaled significand lies in \<open>[2^23, 2^24)\<close> and rounds into \<open>[2^23, 2^24]\<close>.\<close>

lemma significand_bounds:
  assumes "0 < x"
  defines "q \<equiv> x / 2 powi (binade x - 23)"
  shows "2 ^ 23 \<le> q" "q < 2 ^ 24" "2 ^ 23 \<le> half_even q" "half_even q \<le> 2 ^ 24"
proof -
  let ?s = "(2::rat) powi (binade x - 23)"
  have s: "0 < ?s" by simp
  note b = binade_bounds [OF assms(1)]
  have "?s * 2 ^ 23 \<le> x" using b(1) powi_split [of "binade x"] by simp
  then show 1: "2 ^ 23 \<le> q" unfolding q_def using s by (simp add: pos_le_divide_eq mult.commute)
  have "x < ?s * 2 ^ 24" using b(2) powi_split [of "binade x"] by (simp add: powi_Suc)
  then show 2: "q < 2 ^ 24" unfolding q_def using s by (simp add: pos_divide_less_eq mult.commute)
  have "half_even (of_int (2 ^ 23)) \<le> half_even q"
    by (rule half_even_mono) (use 1 in simp)
  then show "2 ^ 23 \<le> half_even q" by (simp only: half_even_of_int)
  have "half_even q \<le> half_even (of_int (2 ^ 24))"
    by (rule half_even_mono) (use 2 in simp)
  then show "half_even q \<le> 2 ^ 24" by (simp only: half_even_of_int)
qed

lemma round_pos_eq:
  "round_pos x = of_int (half_even (x / 2 powi (binade x - 23))) * 2 powi (binade x - 23)"
  by (simp add: round_pos_def Let_def)

lemma round_pos_bounds:
  assumes "0 < x"
  shows "2 powi binade x \<le> round_pos x" "round_pos x \<le> 2 powi (binade x + 1)"
proof -
  let ?s = "(2::rat) powi (binade x - 23)"
  let ?n = "half_even (x / ?s)"
  note n = significand_bounds(3,4) [OF assms]
  have s: "0 < ?s" by simp
  have "(of_int (2 ^ 23) :: rat) \<le> of_int ?n" using n(1) by (simp only: of_int_le_iff)
  then have "2 ^ 23 * ?s \<le> of_int ?n * ?s" using s by simp
  then show "2 powi binade x \<le> round_pos x"
    unfolding round_pos_eq using powi_split [of "binade x"] by (simp add: mult.commute)
  have "(of_int ?n :: rat) \<le> of_int (2 ^ 24)" using n(2) by (simp only: of_int_le_iff)
  then have "of_int ?n * ?s \<le> 2 ^ 24 * ?s" using s by simp
  then show "round_pos x \<le> 2 powi (binade x + 1)"
    unfolding round_pos_eq using powi_split [of "binade x"] by (simp add: powi_Suc mult.commute)
qed

lemma round_pos_pos: "0 < x \<Longrightarrow> 0 < round_pos x"
  using round_pos_bounds(1) [of x] zero_less_power_int [of "2::rat" "binade x"]
  by (meson less_le_trans zero_less_numeral)

lemma binade_mono:
  assumes "0 < x" "x \<le> y"
  shows "binade x \<le> binade y"
proof -
  have y: "0 < y" using assms by simp
  have "(2::rat) powi binade x < 2 powi (binade y + 1)"
    using binade_bounds(1) [OF assms(1)] binade_bounds(2) [OF y] assms(2) by simp
  then have "binade x < binade y + 1"
    by (metis power_int_increasing [of _ _ "2::rat"] not_le one_le_numeral)
  then show ?thesis by simp
qed

lemma round_pos_mono:
  assumes "0 < x" "x \<le> y"
  shows "round_pos x \<le> round_pos y"
proof (cases "binade x = binade y")
  case True
  let ?s = "(2::rat) powi (binade y - 23)"
  have s: "0 < ?s" by simp
  have "x / ?s \<le> y / ?s" using assms(2) s by (simp add: divide_right_mono)
  then have "half_even (x / ?s) \<le> half_even (y / ?s)" by (rule half_even_mono)
  then have "(of_int (half_even (x / ?s)) :: rat) \<le> of_int (half_even (y / ?s))"
    by (simp only: of_int_le_iff)
  then show ?thesis unfolding round_pos_eq True using s by simp
next
  case False
  have y: "0 < y" using assms by simp
  have "binade x + 1 \<le> binade y" using False binade_mono [OF assms] by simp
  then have "(2::rat) powi (binade x + 1) \<le> 2 powi binade y"
    by (rule power_int_increasing) simp
  then show ?thesis
    using round_pos_bounds(2) [OF assms(1)] round_pos_bounds(1) [OF y] by simp
qed

lemma round_pos_upper:
  assumes "0 < x"
  shows "round_pos x \<le> x * (1 + 1 / 2 ^ 24)"
proof -
  let ?s = "(2::rat) powi (binade x - 23)"
  let ?q = "x / ?s"
  have s: "0 < ?s" by simp
  have "of_int (half_even ?q) * ?s \<le> (?q + 1 / 2) * ?s"
    using half_even_bounds(2) [of ?q] s by simp
  also have "\<dots> = x + ?s / 2" using s by (simp add: field_simps)
  also have "?s / 2 = 2 powi binade x / 2 ^ 24" using powi_split [of "binade x"] by simp
  also have "\<dots> \<le> x / 2 ^ 24"
    using binade_bounds(1) [OF assms] by (simp add: divide_right_mono)
  finally show ?thesis unfolding round_pos_eq by (simp add: field_simps)
qed

lemma round_pos_fix:
  assumes "0 < x" and "round_pos x = y"
  shows "round_pos y = y"
proof -
  let ?e = "binade x"
  let ?s = "(2::rat) powi (?e - 23)"
  let ?n = "half_even (x / ?s)"
  have s: "0 < ?s" by simp
  note n = significand_bounds(3,4) [OF assms(1)]
  have y: "y = of_int ?n * ?s" using assms(2) by (simp add: round_pos_eq)
  show ?thesis
  proof (cases "?n = 2 ^ 24")
    case True
    have y2: "y = 2 powi (?e + 1)" unfolding y True using powi_split [of ?e] by (simp add: powi_Suc)
    have "y < 2 powi (?e + 1 + 1)" unfolding y2 by (rule power_int_strict_increasing) simp_all
    then have b: "binade y = ?e + 1" using binade_unique [of "?e + 1" y] y2 by simp
    have "y / 2 powi (?e + 1 - 23) = of_int (2 ^ 23)"
      unfolding y2 using powi_split [of "?e + 1"] by simp
    then have "half_even (y / 2 powi (?e + 1 - 23)) = 2 ^ 23" by (simp only: half_even_of_int)
    then show ?thesis
      unfolding round_pos_eq [of y] b using y2 powi_split [of "?e + 1"] by (simp add: mult.commute)
  next
    case False
    then have lt: "?n < 2 ^ 24" using n(2) by simp
    have "(of_int ?n :: rat) < of_int (2 ^ 24)" using lt by (simp only: of_int_less_iff)
    then have "of_int ?n * ?s < 2 ^ 24 * ?s" using s by simp
    then have hi: "y < 2 powi (?e + 1)"
      unfolding y using powi_split [of ?e] by (simp add: powi_Suc mult.commute)
    have lo: "2 powi ?e \<le> y" using round_pos_bounds(1) [OF assms(1)] assms(2) by simp
    have b: "binade y = ?e" by (rule binade_unique [OF lo hi])
    have "y / ?s = of_int ?n" unfolding y using s by simp
    then have "half_even (y / ?s) = ?n" by (simp only: half_even_of_int)
    then show ?thesis unfolding round_pos_eq [of y] b using y by simp
  qed
qed

subsection \<open>round32\<close>

lemma round32_0 [simp]: "round32 0 = 0"
  by (simp add: round32_def)

lemma round32_minus: "round32 (- x) = - round32 x"
  by (simp add: round32_def)

lemma round32_pos: "0 < x \<Longrightarrow> 0 < round32 x"
  by (simp add: round32_def round_pos_pos)

lemma round32_mono:
  assumes "x \<le> y"
  shows "round32 x \<le> round32 y"
proof -
  consider "0 < x" | "x \<le> 0" "0 \<le> y" | "y < 0" using assms by linarith
  then show ?thesis
  proof cases
    case 1
    then show ?thesis using assms round_pos_mono [of x y] by (simp add: round32_def)
  next
    case 2
    have "round32 x \<le> 0" using 2(1) round_pos_pos [of "- x"] by (simp add: round32_def less_imp_le)
    moreover have "0 \<le> round32 y" using 2(2) round_pos_pos [of y] by (simp add: round32_def less_imp_le)
    ultimately show ?thesis by simp
  next
    case 3
    then have "round_pos (- y) \<le> round_pos (- x)" using assms round_pos_mono [of "- y" "- x"] by simp
    then show ?thesis using 3 assms by (simp add: round32_def)
  qed
qed

lemma round32_nonneg: "0 \<le> x \<Longrightarrow> 0 \<le> round32 x"
  using round32_mono [of 0 x] by simp

lemma round32_idem [simp]: "round32 (round32 x) = round32 x"
proof -
  consider "x = 0" | "0 < x" | "x < 0" by linarith
  then show ?thesis
  proof cases
    case 1
    then show ?thesis by simp
  next
    case 2
    then show ?thesis
      using round_pos_fix [OF 2 refl] round_pos_pos [OF 2] by (simp add: round32_def)
  next
    case 3
    then have p: "0 < - x" by simp
    show ?thesis
      using round_pos_fix [OF p refl] round_pos_pos [OF p] 3 by (simp add: round32_def)
  qed
qed

lemma round32_upper: "0 \<le> x \<Longrightarrow> round32 x \<le> x * (1 + 1 / 2 ^ 24)"
  using round_pos_upper [of x] by (cases "x = 0") (simp_all add: round32_def)

text \<open>Rounding stays on the same side of a value that is itself a result of rounding.\<close>

lemma round32_le: "x \<le> round32 b \<Longrightarrow> round32 x \<le> round32 b"
  using round32_mono [of x "round32 b"] by simp

lemma round32_ge: "round32 a \<le> x \<Longrightarrow> round32 a \<le> round32 x"
  using round32_mono [of "round32 a" x] by simp

section \<open>The rebalance trigger\<close>

lemma rebalanceLoads_f32_idle:
  "servers \<noteq> [] \<Longrightarrow> \<not> imbalance_f32 servers > threshold
   \<Longrightarrow> rebalanceLoads_f32 servers threshold heap = Some (servers, heap, False)"
  by (simp add: rebalanceLoads_f32_def Let_def)

lemma rebalanceLoads_f32_fire:
  assumes "servers \<noteq> []" and "imbalance_f32 servers > threshold"
  shows "rebalanceLoads_f32 servers threshold heap =
     Some (addLoad_f32 (subLoad_f32 servers (findMostLoadedServer servers) (migrationAmount_f32 servers))
                   (findLeastLoadedServer servers) (migrationAmount_f32 servers),
           updateHeap
             (updateHeap heap (findMostLoadedServer servers)
                (currentLoad (addLoad_f32 (subLoad_f32 servers (findMostLoadedServer servers) (migrationAmount_f32 servers))
                   (findLeastLoadedServer servers) (migrationAmount_f32 servers) ! findMostLoadedServer servers)))
             (findLeastLoadedServer servers)
             (currentLoad (addLoad_f32 (subLoad_f32 servers (findMostLoadedServer servers) (migrationAmount_f32 servers))
                   (findLeastLoadedServer servers) (migrationAmount_f32 servers) ! findLeastLoadedServer servers)),
           True)"
  using assms by (simp add: rebalanceLoads_f32_def Let_def)

lemma pct_f32_of_ratio:
  assumes "0 < capacity s" and "getLoadPercentage s = p"
  shows "getLoadPercentage_f32 s = round32 (round32 (p / 100) * 100)"
proof -
  have "x = p / 100" if "x * 100 = p" for x :: rat using that by simp
  then have r: "currentLoad s / capacity s = p / 100"
    using assms(2) unfolding getLoadPercentage_def by blast
  show ?thesis unfolding getLoadPercentage_f32_def r ..
qed

lemma two_imbalance_f32:
  "imbalance_f32 [a, b] =
     (if currentLoad a < currentLoad b then round32 (getLoadPercentage_f32 b - getLoadPercentage_f32 a)
      else if currentLoad b < currentLoad a then round32 (getLoadPercentage_f32 a - getLoadPercentage_f32 b)
      else 0)"
  by (simp add: imbalance_f32_def two_most two_least Let_def)

lemma fires_90_60:
  "20 < round32 (round32 (round32 (90 / 100) * 100) - round32 (round32 (60 / 100) * 100))"
  by code_simp

lemma idle_70_60:
  "\<not> 20 < round32 (round32 (round32 (70 / 100) * 100) - round32 (round32 (60 / 100) * 100))"
  "\<not> 20 < round32 (round32 (round32 (60 / 100) * 100) - round32 (round32 (70 / 100) * 100))"
  by code_simp+

text \<open>
  Claim C5, as amended. In binary32 arithmetic \<^verbatim>\<open>rebalanceLoads\<close> takes its migration branch
  exactly when the imbalance it computes strictly exceeds the threshold: then it reports
  the trigger, subtracts the migration amount from the most-loaded server, adds it to the
  least-loaded one and updates both heap entries; otherwise the servers and the heap stay
  as they are. Two servers at 90% and 60% of positive capacities, of which the one at 90%
  carries the larger load, fire at threshold 20 (in either array order); two servers at
  70% and 60% of any positive capacities do not fire at threshold 20 and are left unchanged.
\<close>

theorem rebalance_trigger:
  assumes "servers \<noteq> []"
  shows "(\<exists>servers' heap' fired.
             rebalanceLoads_f32 servers threshold heap = Some (servers', heap', fired)
           \<and> (fired \<longleftrightarrow> imbalance_f32 servers > threshold)
           \<and> (\<not> fired \<longrightarrow> servers' = servers \<and> heap' = heap)
           \<and> (fired \<longrightarrow>
                servers' = addLoad_f32 (subLoad_f32 servers (findMostLoadedServer servers)
                                          (migrationAmount_f32 servers))
                             (findLeastLoadedServer servers) (migrationAmount_f32 servers)
              \<and> heap' = updateHeap
                          (updateHeap heap (findMostLoadedServer servers)
                             (currentLoad (servers' ! findMostLoadedServer servers)))
                          (findLeastLoadedServer servers)
                          (currentLoad (servers' ! findLeastLoadedServer servers))))
       \<and> (0 < capacity a \<and> 0 < capacity b
            \<and> getLoadPercentage a = 90 \<and> getLoadPercentage b = 60
            \<and> currentLoad b < currentLoad a
            \<longrightarrow> (\<exists>servers' heap'. rebalanceLoads_f32 [a, b] 20 heap = Some (servers', heap', True))
              \<and> (\<exists>servers' heap'. rebalanceLoads_f32 [b, a] 20 heap = Some (servers', heap', True)))
       \<and> (0 < capacity a \<and> 0 < capacity b
            \<and> getLoadPercentage a = 70 \<and> getLoadPercentage b = 60
            \<longrightarrow> rebalanceLoads_f32 [a, b] 20 heap = Some ([a, b], heap, False)
              \<and> rebalanceLoads_f32 [b, a] 20 heap = Some ([b, a], heap, False))"
proof (intro conjI impI)
  show "\<exists>servers' heap' fired.
             rebalanceLoads_f32 servers threshold heap = Some (servers', heap', fired)
           \<and> (fired \<longleftrightarrow> imbalance_f32 servers > threshold)
           \<and> (\<not> fired \<longrightarrow> servers' = servers \<and> heap' = heap)
           \<and> (fired \<longrightarrow>
                servers' = addLoad_f32 (subLoad_f32 servers (findMostLoadedServer servers)
                                          (migrationAmount_f32 servers))
                             (findLeastLoadedServer servers) (migrationAmount_f32 servers)
              \<and> heap' = updateHeap
                          (updateHeap heap (findMostLoadedServer servers)
                             (currentLoad (servers' ! findMostLoadedServer servers)))
                          (findLeastLoadedServer servers)
                          (currentLoad (servers' ! findLeastLoadedServer servers)))"
  proof (cases "imbalance_f32 servers > threshold")
    case True
    let ?s = "addLoad_f32 (subLoad_f32 servers (findMostLoadedServer servers)
                             (migrationAmount_f32 servers))
                (findLeastLoadedServer servers) (migrationAmount_f32 servers)"
    let ?h = "updateHeap
                (updateHeap heap (findMostLoadedServer servers)
                   (currentLoad (?s ! findMostLoadedServer servers)))
                (findLeastLoadedServer servers)
                (currentLoad (?s ! findLeastLoadedServer servers))"
    have "rebalanceLoads_f32 servers threshold heap = Some (?s, ?h, True)"
      by (rule rebalanceLoads_f32_fire [OF assms True])
    then show ?thesis
      by (intro exI [of _ ?s] exI [of _ ?h] exI [of _ True]) (simp add: True)
  next
    case False
    have "rebalanceLoads_f32 servers threshold heap = Some (servers, heap, False)"
      by (rule rebalanceLoads_f32_idle [OF assms False])
    then show ?thesis
      by (intro exI [of _ servers] exI [of _ heap] exI [of _ False]) (simp add: False)
  qed
next
  assume s: "0 < capacity a \<and> 0 < capacity b
            \<and> getLoadPercentage a = 90 \<and> getLoadPercentage b = 60
            \<and> currentLoad b < currentLoad a"
  then have p: "getLoadPercentage_f32 a = round32 (round32 (90 / 100) * 100)"
    "getLoadPercentage_f32 b = round32 (round32 (60 / 100) * 100)"
    using pct_f32_of_ratio [of a 90] pct_f32_of_ratio [of b 60] by blast+
  have "imbalance_f32 [a, b] = round32 (getLoadPercentage_f32 a - getLoadPercentage_f32 b)"
    "imbalance_f32 [b, a] = round32 (getLoadPercentage_f32 a - getLoadPercentage_f32 b)"
    using s by (simp_all add: two_imbalance_f32)
  then have f: "imbalance_f32 [a, b] > 20" "imbalance_f32 [b, a] > 20"
    unfolding p using fires_90_60 by (simp_all only:)
  show "\<exists>servers' heap'. rebalanceLoads_f32 [a, b] 20 heap = Some (servers', heap', True)"
    using rebalanceLoads_f32_fire [OF _ f(1), of heap] by simp
  show "\<exists>servers' heap'. rebalanceLoads_f32 [b, a] 20 heap = Some (servers', heap', True)"
    using rebalanceLoads_f32_fire [OF _ f(2), of heap] by simp
next
  assume s: "0 < capacity a \<and> 0 < capacity b
            \<and> getLoadPercentage a = 70 \<and> getLoadPercentage b = 60"
  then have p: "getLoadPercentage_f32 a = round32 (round32 (70 / 100) * 100)"
    "getLoadPercentage_f32 b = round32 (round32 (60 / 100) * 100)"
    using pct_f32_of_ratio [of a 70] pct_f32_of_ratio [of b 60] by blast+
  have c: "imbalance_f32 [a, b] = round32 (getLoadPercentage_f32 a - getLoadPercentage_f32 b)
         \<or> imbalance_f32 [a, b] = round32 (getLoadPercentage_f32 b - getLoadPercentage_f32 a)
         \<or> imbalance_f32 [a, b] = 0"
    "imbalance_f32 [b, a] = round32 (getLoadPercentage_f32 a - getLoadPercentage_f32 b)
         \<or> imbalance_f32 [b, a] = round32 (getLoadPercentage_f32 b - getLoadPercentage_f32 a)
         \<or> imbalance_f32 [b, a] = 0"
    by (simp_all add: two_imbalance_f32)
  have f: "\<not> imbalance_f32 [a, b] > 20" "\<not> imbalance_f32 [b, a] > 20"
    using c idle_70_60 unfolding p by auto
  show "rebalanceLoads_f32 [a, b] 20 heap = Some ([a, b], heap, False)"
    using rebalanceLoads_f32_idle [OF _ f(1), of heap] by simp
  show "rebalanceLoads_f32 [b, a] 20 heap = Some ([b, a], heap, False)"
    using rebalanceLoads_f32_idle [OF _ f(2), of heap] by simp
qed

lemma fires_60_40: "imbalance_f32 fleet_60_40 > 20"
  by code_simp

theorem rebalance_trigger_witness:
  "fleet_90_60 \<noteq> [] \<and> fleet_60_40 \<noteq> []
   \<and> (\<exists>servers' heap'. rebalanceLoads_f32 fleet_90_60 20 heap_90_60 = Some (servers', heap', True))
   \<and> rebalanceLoads_f32 fleet_70_60 20 heap_90_60 = Some (fleet_70_60, heap_90_60, False)
   \<and> imbalance_f32 fleet_60_40 > 20
   \<and> (\<exists>servers' heap'. rebalanceLoads_f32 fleet_60_40 20 heap_60_40 = Some (servers', heap', True))"
proof -
  let ?a = "\<lparr>id_srv = 0, capacity = 100, currentLoad = 90\<rparr>"
  let ?b = "\<lparr>id_srv = 1, capacity = 100, currentLoad = 60\<rparr>"
  let ?c = "\<lparr>id_srv = 0, capacity = 100, currentLoad = 70\<rparr>"
  have n: "fleet_90_60 \<noteq> []" "fleet_60_40 \<noteq> []" by (simp_all add: fleet_90_60_def fleet_60_40_def)
  have d: "[?a, ?b] = fleet_90_60" "[?c, ?b] = fleet_70_60"
    by (simp_all add: fleet_90_60_def fleet_70_60_def)
  have h: "getLoadPercentage ?a = 90" "getLoadPercentage ?b = 60" "getLoadPercentage ?c = 70"
    by (simp_all add: getLoadPercentage_def)
  have 1: "\<exists>servers' heap'. rebalanceLoads_f32 [?a, ?b] 20 heap_90_60 = Some (servers', heap', True)"
    using rebalance_trigger [OF n(1), of 20 heap_90_60 ?a ?b] h by simp
  have 2: "rebalanceLoads_f32 [?c, ?b] 20 heap_90_60 = Some ([?c, ?b], heap_90_60, False)"
    using rebalance_trigger [OF n(1), of 20 heap_90_60 ?c ?b] h by simp
  from rebalance_trigger [OF n(2), of 20 heap_60_40] obtain s' h' fired where
    f: "rebalanceLoads_f32 fleet_60_40 20 heap_60_40 = Some (s', h', fired)"
      "fired \<longleftrightarrow> imbalance_f32 fleet_60_40 > 20" by blast
  have "fired = True" using f(2) fires_60_40 by simp
  then have 3: "\<exists>servers' heap'. rebalanceLoads_f32 fleet_60_40 20 heap_60_40 = Some (servers', heap', True)"
    using f(1) by blast
  show ?thesis using n 1 2 3 fires_60_40 unfolding d by blast
qed

text \<open>
  Claim C5 as stated fails, in two ways. Two servers at 60% and 90% of capacities 200 and
  100: the server at 60% carries the larger load, the computed imbalance is negative, and
  rebalancing does not fire at threshold 20. Three servers of capacities 200, 50 and 100
  with loads of about 15.96 that differ in the last binary digit: the computed imbalance
  exceeds 20 and the migration branch is taken, but the amount is negative, the
  most-loaded server 1 keeps its load and the least-loaded server 0 loses load.
\<close>

theorem rebalance_trigger_counterexample:
  "getLoadPercentage (fleet_skew ! 0) = 60 \<and> getLoadPercentage (fleet_skew ! 1) = 90
   \<and> length fleet_skew = 2
   \<and> rebalanceLoads_f32 fleet_skew 20 heap_skew = Some (fleet_skew, heap_skew, False)
   \<and> rebalanceLoads_f32 fleet_close 20 heap_close = Some (fleet_close_after, heap_close_after, True)
   \<and> findMostLoadedServer fleet_close = 1
   \<and> currentLoad (fleet_close_after ! 1) = currentLoad (fleet_close ! 1)
   \<and> currentLoad (fleet_close_after ! 0) < currentLoad (fleet_close ! 0)"
proof -
  have "\<not> imbalance_f32 fleet_skew > 20" by code_simp
  then have "rebalanceLoads_f32 fleet_skew 20 heap_skew = Some (fleet_skew, heap_skew, False)"
    by (intro rebalanceLoads_f32_idle) (simp_all add: fleet_skew_def)
  moreover have "rebalanceLoads_f32 fleet_close 20 heap_close
                 = Some (fleet_close_after, heap_close_after, True)"
    "findMostLoadedServer fleet_close = 1"
    by code_simp+
  moreover have "currentLoad (fleet_close_after ! 1) = currentLoad (fleet_close ! 1)"
    "currentLoad (fleet_close_after ! 0) < currentLoad (fleet_close ! 0)"
    by (simp_all add: fleet_close_def fleet_close_after_def)
  ultimately show ?thesis by (simp add: fleet_skew_def getLoadPercentage_def)
qed

section \<open>The computed imbalance\<close>





section \<open>Heap and registry in sync\<close>

lemma entries_length: "heap_wf heap \<Longrightarrow> length (entries heap) = size_h heap"
  by (auto simp: entries_def heap_wf_def)

lemma in_sync_size: "heap_wf heap \<Longrightarrow> in_sync servers heap \<Longrightarrow> size_h heap = length servers"
  using mset_eq_length [of "entries heap" "map (entry_of servers) [0..<length servers]"]
  by (simp add: in_sync_def entries_length)

lemma in_sync_member:
  assumes "in_sync servers heap"
  shows "e \<in> set (entries heap)
         \<longleftrightarrow> serverId e < length servers \<and> e = entry_of servers (serverId e)"
proof -
  have "set (entries heap) = set (map (entry_of servers) [0..<length servers])"
    by (rule mset_eq_setD) (rule assms [unfolded in_sync_def])
  then show ?thesis by (auto simp: entry_of_def)
qed

lemma mset_map_change:
  assumes "k < n" and "\<And>j. j < n \<Longrightarrow> j \<noteq> k \<Longrightarrow> g j = f j"
  shows "mset (map g [0..<n]) = add_mset (g k) (mset (map f [0..<n]) - {#f k#})"
proof -
  have split: "[0..<n] = [0..<k] @ k # [Suc k..<n]"
    using assms(1) by (metis less_imp_le_nat upt_add_eq_append upt_conv_Cons le0 le_add_diff_inverse plus_nat.add_0)
  have a: "map g [0..<k] = map f [0..<k]" using assms by simp
  have b: "map g [Suc k..<n] = map f [Suc k..<n]" using assms by simp
  show ?thesis by (subst (1 2) split) (simp add: a b)
qed

lemma in_sync_root_least:
  assumes wf: "heap_wf heap" and ok: "heap_ok heap" and sync: "in_sync servers heap"
    and ne: "servers \<noteq> []"
  obtains m heap' where "extractMin heap = Some (m, heap')"
    and "serverId m < length servers" and "m = entry_of servers (serverId m)"
    and "\<And>j. j < length servers \<Longrightarrow> load m \<le> currentLoad (servers ! j)"
    and "mset (entries heap') = mset (entries heap) - {#m#}"
    and "heap_ok heap'" and "heap_wf heap'" and "size_h heap' = length servers - 1"
    and "capacity_h heap' = capacity_h heap"
proof -
  have sz: "size_h heap = length servers" by (rule in_sync_size [OF wf sync])
  then have pos: "0 < size_h heap" using ne by simp
  from extractMin_correct [OF wf ok pos] obtain m heap' where
    e: "extractMin heap = Some (m, heap')"
      "\<And>e. e \<in> set (entries heap) \<Longrightarrow> load m \<le> load e"
      "m \<in> set (entries heap)" "mset (entries heap') = mset (entries heap) - {#m#}"
      "heap_ok heap'" "heap_wf heap'" "size_h heap' = size_h heap - 1"
      "capacity_h heap' = capacity_h heap" by metis
  have m: "serverId m < length servers" "m = entry_of servers (serverId m)"
    using e(3) in_sync_member [OF sync] by auto
  have least: "load m \<le> currentLoad (servers ! j)" if "j < length servers" for j
  proof -
    have "entry_of servers j \<in> set (entries heap)"
      using that in_sync_member [OF sync, of "entry_of servers j"] by (simp add: entry_of_def)
    from e(2) [OF this] show ?thesis by (simp add: entry_of_def)
  qed
  show thesis using that [OF e(1) m least e(4,5,6) _ e(8)] e(7) sz by simp
qed

lemma assignTask_step:
  assumes wf: "heap_wf heap" and ok: "heap_ok heap" and sync: "in_sync servers heap"
    and ne: "servers \<noteq> []"
  obtains servers' heap' chosen where
    "assignTask servers heap taskLoad = Some (servers', heap', chosen)"
    and "chosen < length servers"
    and "\<And>j. j < length servers \<Longrightarrow> currentLoad (servers ! chosen) \<le> currentLoad (servers ! j)"
    and "servers' = addLoad servers chosen taskLoad"
    and "heap_wf heap'" and "heap_ok heap'" and "in_sync servers' heap'"
proof -
  from in_sync_root_least [OF wf ok sync ne] obtain m heap1 where
    e: "extractMin heap = Some (m, heap1)"
      "serverId m < length servers" "m = entry_of servers (serverId m)"
      "\<And>j. j < length servers \<Longrightarrow> load m \<le> currentLoad (servers ! j)"
      "mset (entries heap1) = mset (entries heap) - {#m#}"
      "heap_ok heap1" "heap_wf heap1" "size_h heap1 = length servers - 1"
      "capacity_h heap1 = capacity_h heap" by metis
  let ?k = "serverId m"
  let ?s = "addLoad servers ?k taskLoad"
  let ?h = "insertHeap heap1 ?k (currentLoad (?s ! ?k))"
  have lm: "load m = currentLoad (servers ! ?k)" using e(3) by (metis HeapNode.select_convs(2) entry_of_def)
  have a: "assignTask servers heap taskLoad = Some (?s, ?h, ?k)"
    using e(1,2) by (simp add: assignTask_def Let_def)
  have "0 < length servers" "length servers \<le> capacity_h heap"
    using wf in_sync_size [OF wf sync] ne by (auto simp: heap_wf_def)
  then have cap: "size_h heap1 < capacity_h heap1"
    using e(8,9) by linarith
  have "mset (entries ?h) = add_mset (entry_of ?s ?k) (mset (entries heap1))"
    using insertHeap_entries [OF e(7) cap] by (simp add: entry_of_def)
  also have "\<dots> = add_mset (entry_of ?s ?k) (mset (map (entry_of servers) [0..<length servers]) - {#entry_of servers ?k#})"
    using e(5) e(3) sync by (simp add: in_sync_def)
  also have "\<dots> = mset (map (entry_of ?s) [0..<length servers])"
    by (rule mset_map_change [symmetric, OF e(2)]) (simp add: entry_of_def addLoad_nth)
  finally have s: "in_sync ?s ?h" by (simp add: in_sync_def)
  show thesis
    using that [OF a e(2) _ refl insertHeap_wf [OF e(7)] insertHeap_ok [OF e(7,6)] s] e(4) lm
    by simp
qed

text \<open>
  Claim C1. When the heap is well formed, has the min-heap property and is in sync with the
  registry, the assignment step goes through and the server it takes from the heap (the
  root returned by \<^verbatim>\<open>extractMin\<close>) has the least current load of all servers: its load
  is the load of the server that the linear scan \<^verbatim>\<open>findLeastLoadedServer\<close> returns, and it
  is that very server whenever no other server has the same load.
\<close>

theorem greedy_selection:
  assumes "heap_wf heap" and "heap_ok heap" and "in_sync servers heap" and "servers \<noteq> []"
  shows "\<exists>servers' heap' chosen.
           assignTask servers heap taskLoad = Some (servers', heap', chosen)
         \<and> map_option (serverId \<circ> fst) (extractMin heap) = Some chosen
         \<and> chosen < length servers
         \<and> (\<forall>j < length servers. currentLoad (servers ! chosen) \<le> currentLoad (servers ! j))
         \<and> currentLoad (servers ! chosen) = currentLoad (servers ! findLeastLoadedServer servers)
         \<and> ((\<forall>j < length servers. j \<noteq> chosen
                 \<longrightarrow> currentLoad (servers ! chosen) < currentLoad (servers ! j))
              \<longrightarrow> findLeastLoadedServer servers = chosen)"
proof -
  from assignTask_step [OF assms, of taskLoad] obtain servers' heap' chosen where
    a: "assignTask servers heap taskLoad = Some (servers', heap', chosen)"
      "chosen < length servers"
      "\<And>j. j < length servers \<Longrightarrow> currentLoad (servers ! chosen) \<le> currentLoad (servers ! j)"
    by metis
  have x: "map_option (serverId \<circ> fst) (extractMin heap) = Some chosen"
    using a(1) by (auto simp: assignTask_def Let_def split: option.splits if_splits)
  note lo = findLeastLoadedServer_spec [OF assms(4)]
  have eq: "currentLoad (servers ! chosen) = currentLoad (servers ! findLeastLoadedServer servers)"
    using a(3) [OF lo(1)] lo(2) [OF a(2)] by simp
  have "findLeastLoadedServer servers = chosen"
    if "\<forall>j < length servers. j \<noteq> chosen
          \<longrightarrow> currentLoad (servers ! chosen) < currentLoad (servers ! j)"
    using that lo(1) eq by force
  then show ?thesis using a x eq by blast
qed

theorem greedy_selection_witness:
  "heap_wf heap3_two \<and> heap_ok heap3_two \<and> in_sync fleet3_two heap3_two \<and> fleet3_two \<noteq> []
   \<and> (\<exists>servers' heap'. assignTask fleet3_two heap3_two 10 = Some (servers', heap', 1))
   \<and> currentLoad (fleet3_two ! 1) = currentLoad (fleet3_two ! findLeastLoadedServer fleet3_two)
   \<and> findLeastLoadedServer fleet3_two = 1"
proof -
  have a: "heap_wf heap3_two" by (simp add: heap3_two_def heap_wf_def)
  have b: "heap_ok heap3_two" by code_simp
  have c: "in_sync fleet3_two heap3_two"
    by (simp add: in_sync_def heap3_two_def fleet3_two_def entries_def entry_of_def upt_rec)
  have d: "fleet3_two \<noteq> []" by (simp add: fleet3_two_def)
  have f: "map_option (serverId \<circ> fst) (extractMin heap3_two) = Some 1"
    by (simp add: heap3_two_def extractMin_def)
  have g: "\<forall>j < length fleet3_two. j \<noteq> 1
              \<longrightarrow> currentLoad (fleet3_two ! 1) < currentLoad (fleet3_two ! j)"
    by (simp add: fleet3_two_def less_Suc_eq numeral_3_eq_3)
  from greedy_selection [OF a b c d, of 10] obtain servers' heap' chosen where
    h: "assignTask fleet3_two heap3_two 10 = Some (servers', heap', chosen)"
      "map_option (serverId \<circ> fst) (extractMin heap3_two) = Some chosen"
      "currentLoad (fleet3_two ! chosen) = currentLoad (fleet3_two ! findLeastLoadedServer fleet3_two)"
      "(\<forall>j < length fleet3_two. j \<noteq> chosen
                 \<longrightarrow> currentLoad (fleet3_two ! chosen) < currentLoad (fleet3_two ! j))
              \<longrightarrow> findLeastLoadedServer fleet3_two = chosen"
    by blast
  have ch: "chosen = 1" using h(2) f by simp
  show ?thesis
    using a b c d h(1,3) h(4) [unfolded ch] g unfolding ch by blast
qed

section \<open>Reachable states\<close>

lemma loads_nonneg_nth:
  "loads_nonneg servers \<longleftrightarrow> (\<forall>j < length servers. 0 \<le> currentLoad (servers ! j))"
  by (simp add: loads_nonneg_def list_all_length)

subsection \<open>Seeding\<close>

lemma createMinHeap_wf: "heap_wf (createMinHeap n)"
  by (simp add: createMinHeap_def heap_wf_def)

lemma createMinHeap_ok: "heap_ok (createMinHeap n)"
  by (simp add: createMinHeap_def heap_ok_def)

lemma seedHeap_spec:
  assumes "heap_wf heap" "heap_ok heap" "size_h heap = i" "capacity_h heap = n" "i \<le> n"
  shows "heap_wf (seedHeap heap n i) \<and> heap_ok (seedHeap heap n i)
       \<and> mset (entries (seedHeap heap n i))
           = mset (entries heap) + mset (map (\<lambda>j. \<lparr>serverId = j, load = 0\<rparr>) [i..<n])"
  using assms
proof (induction heap n i rule: seedHeap.induct)
  case (1 heap n i)
  show ?case
  proof (cases "i < n")
    case False
    then show ?thesis using "1.prems" by (subst (1 2 3) seedHeap.simps) simp
  next
    case True
    let ?h = "insertHeap heap i 0"
    have lt: "size_h heap < capacity_h heap" using True "1.prems" by simp
    have a: "heap_wf ?h" "heap_ok ?h" "size_h ?h = i + 1" "capacity_h ?h = n" "i + 1 \<le> n"
      using insertHeap_wf [OF "1.prems"(1)] insertHeap_ok [OF "1.prems"(1,2)] True "1.prems"
      by (simp_all add: insertHeap_frame)
    have e: "mset (entries ?h) = add_mset \<lparr>serverId = i, load = 0\<rparr> (mset (entries heap))"
      by (rule insertHeap_entries [OF "1.prems"(1) lt])
    have u: "[i..<n] = i # [i + 1..<n]" using True by (simp add: upt_conv_Cons)
    have s: "seedHeap heap n i = seedHeap ?h n (i + 1)"
      using True by (subst seedHeap.simps) simp
    show ?thesis
      using "1.IH" [OF True a] unfolding s e u by simp
  qed
qed

lemma initHeap_spec:
  assumes "list_all (\<lambda>s. currentLoad s = 0) servers"
  shows "heap_wf (initHeap (length servers))" and "heap_ok (initHeap (length servers))"
    and "in_sync servers (initHeap (length servers))"
proof -
  let ?n = "length servers"
  have c: "size_h (createMinHeap ?n) = 0" "capacity_h (createMinHeap ?n) = ?n"
    "entries (createMinHeap ?n) = []"
    by (simp_all add: createMinHeap_def entries_def)
  note s = seedHeap_spec [OF createMinHeap_wf createMinHeap_ok c(1,2), simplified]
  show "heap_wf (initHeap ?n)" "heap_ok (initHeap ?n)"
    using s by (simp_all add: initHeap_def)
  have m: "map (\<lambda>j. \<lparr>serverId = j, load = 0\<rparr>) [0..<?n] = map (entry_of servers) [0..<?n]"
    using assms by (simp add: entry_of_def list_all_length)
  have "mset (entries (initHeap ?n))
        = mset (entries (createMinHeap ?n)) + mset (map (\<lambda>j. \<lparr>serverId = j, load = 0\<rparr>) [0..<?n])"
    unfolding initHeap_def
    using seedHeap_spec [OF createMinHeap_wf createMinHeap_ok c(1,2)] by blast
  then have "mset (entries (initHeap ?n)) = mset (map (entry_of servers) [0..<?n])"
    unfolding c(3) m by simp
  then show "in_sync servers (initHeap ?n)" unfolding in_sync_def .
qed

subsection \<open>updateHeap keeps the heap in sync\<close>

lemma updateHeap_sync:
  assumes wf: "heap_wf heap" and sync: "in_sync servers heap" and k: "sid < length servers"
    and len: "length servers' = length servers"
    and same: "\<And>j. j < length servers \<Longrightarrow> j \<noteq> sid
                 \<Longrightarrow> currentLoad (servers' ! j) = currentLoad (servers ! j)"
  shows "in_sync servers' (updateHeap heap sid (currentLoad (servers' ! sid)))"
proof -
  let ?v = "currentLoad (servers' ! sid)"
  have "entry_of servers sid \<in> set (entries heap)"
    using in_sync_member [OF sync, of "entry_of servers sid"] k by (simp add: entry_of_def)
  then obtain i where i: "i < size_h heap" "arr heap ! i = entry_of servers sid"
    using wf by (auto simp: entries_def in_set_conv_nth heap_wf_def)
  have "findIndex heap sid 0 \<noteq> None"
  proof
    assume "findIndex heap sid 0 = None"
    from findIndex_None [OF this _ i(1)] i(2) show False by (simp add: entry_of_def)
  qed
  then obtain x where x: "findIndex heap sid 0 = Some x" by blast
  from findIndex_Some [OF x] have xs: "x < size_h heap" "serverId (arr heap ! x) = sid" by simp_all
  have "arr heap ! x \<in> set (entries heap)"
    using xs(1) wf by (auto simp: entries_def in_set_conv_nth heap_wf_def intro!: exI [of _ x])
  then have ax: "arr heap ! x = entry_of servers sid"
    using in_sync_member [OF sync, of "arr heap ! x"] xs(2) by simp
  have "mset (entries (updateHeap heap sid ?v))
        = add_mset ((arr heap ! x)\<lparr>load := ?v\<rparr>) (mset (entries heap) - {#arr heap ! x#})"
    by (rule updateHeap_entries [OF wf x])
  also have "\<dots> = add_mset (entry_of servers' sid)
                     (mset (map (entry_of servers) [0..<length servers]) - {#entry_of servers sid#})"
    using sync by (simp add: ax in_sync_def entry_of_def)
  also have "\<dots> = mset (map (entry_of servers') [0..<length servers])"
    by (rule mset_map_change [symmetric, OF k]) (simp add: entry_of_def same)
  finally show ?thesis by (simp add: in_sync_def len)
qed

subsection \<open>The exact amount is not negative\<close>

lemma migration_nonneg: "servers \<noteq> [] \<Longrightarrow> 0 \<le> migrationAmount servers"
  using average_le_max [of servers] by (simp add: migrationAmount_def)

subsection \<open>Loads in binary32 arithmetic\<close>

lemma addLoad_f32_length [simp]: "length (addLoad_f32 servers i x) = length servers"
  by (simp add: addLoad_f32_def)

lemma subLoad_f32_length [simp]: "length (subLoad_f32 servers i x) = length servers"
  by (simp add: subLoad_f32_def)

lemma addLoad_f32_nth:
  "j < length servers \<Longrightarrow> currentLoad (addLoad_f32 servers i x ! j)
     = (if j = i then round32 (currentLoad (servers ! j) + x) else currentLoad (servers ! j))"
  by (simp add: addLoad_f32_def)

lemma subLoad_f32_nth:
  "j < length servers \<Longrightarrow> currentLoad (subLoad_f32 servers i x ! j)
     = (if j = i then round32 (currentLoad (servers ! j) - x) else currentLoad (servers ! j))"
  by (simp add: subLoad_f32_def)

lemma loads_f32_nth:
  "loads_f32 servers \<longleftrightarrow> (\<forall>j < length servers. round32 (currentLoad (servers ! j)) = currentLoad (servers ! j))"
  by (simp add: loads_f32_def list_all_length)

subsection \<open>The rounded sum and mean\<close>

lemma drop_loads_nonneg:
  assumes "loads_nonneg servers"
  shows "0 \<le> sum_list (map currentLoad (drop i servers))"
proof (rule sum_list_nonneg)
  fix x assume "x \<in> set (map currentLoad (drop i servers))"
  then obtain s where s: "s \<in> set (drop i servers)" "x = currentLoad s" by auto
  then have "s \<in> set servers" by (meson in_set_dropD)
  then show "0 \<le> x" using assms s(2) by (simp add: loads_nonneg_def list_all_iff)
qed

lemma sumLoads_f32_bounds:
  assumes "0 \<le> t" and "loads_nonneg servers"
  shows "0 \<le> sumLoads_f32 servers i t
       \<and> sumLoads_f32 servers i t
           \<le> (t + sum_list (map currentLoad (drop i servers))) * (1 + 1 / 2 ^ 24) ^ (length servers - i)"
  using assms
proof (induction servers i t rule: sumLoads_f32.induct)
  case (1 servers i t)
  let ?c = "1 + 1 / 2 ^ 24 :: rat"
  show ?case
  proof (cases "i < length servers")
    case False
    then show ?thesis using "1.prems" by (subst (1 2) sumLoads_f32.simps) simp
  next
    case True
    let ?x = "currentLoad (servers ! i)"
    let ?t = "round32 (t + ?x)"
    let ?R = "sum_list (map currentLoad (drop (i + 1) servers))"
    let ?k = "length servers - (i + 1)"
    have x: "0 \<le> ?x" using "1.prems"(2) True by (simp add: loads_nonneg_nth)
    then have tx: "0 \<le> t + ?x" using "1.prems"(1) by simp
    have t0: "0 \<le> ?t" by (rule round32_nonneg [OF tx])
    have t1: "?t \<le> (t + ?x) * ?c" by (rule round32_upper [OF tx])
    have R: "0 \<le> ?R" by (rule drop_loads_nonneg [OF "1.prems"(2)])
    have c1: "1 \<le> ?c" by simp
    have ck: "0 \<le> ?c ^ ?k" by simp
    from "1.IH" [OF True t0 "1.prems"(2)]
    have ih: "0 \<le> sumLoads_f32 servers (i + 1) ?t"
      "sumLoads_f32 servers (i + 1) ?t \<le> (?t + ?R) * ?c ^ ?k" by simp_all
    have "?R \<le> ?R * ?c" using R c1 by (metis mult.right_neutral mult_left_mono)
    then have "?t + ?R \<le> (t + ?x + ?R) * ?c" using t1 by (simp add: algebra_simps)
    then have "(?t + ?R) * ?c ^ ?k \<le> ((t + ?x + ?R) * ?c) * ?c ^ ?k"
      by (rule mult_right_mono [OF _ ck])
    also have "\<dots> = (t + ?x + ?R) * ?c ^ Suc ?k" by simp
    also have "Suc ?k = length servers - i" using True by simp
    finally have up: "(?t + ?R) * ?c ^ ?k \<le> (t + ?x + ?R) * ?c ^ (length servers - i)" .
    have d: "drop i servers = servers ! i # drop (i + 1) servers"
      using True by (simp add: Cons_nth_drop_Suc)
    have s: "sumLoads_f32 servers i t = sumLoads_f32 servers (i + 1) ?t"
      using True by (subst sumLoads_f32.simps) simp
    show ?thesis unfolding s d using ih up by (simp add: add.assoc)
  qed
qed

lemma pow_c_le: "n \<le> 20 \<Longrightarrow> (1 + 1 / 2 ^ 24 :: rat) ^ (n + 1) \<le> 21 / 20"
proof -
  assume "n \<le> 20"
  then have "(1 + 1 / 2 ^ 24 :: rat) ^ (n + 1) \<le> (1 + 1 / 2 ^ 24) ^ 21"
    by (intro power_increasing) simp_all
  also have "\<dots> \<le> 21 / 20" by code_simp
  finally show ?thesis .
qed

text \<open>
  The rounded mean is not negative, and it exceeds the exact mean by less than one part
  in twenty when there are at most twenty servers.
\<close>

lemma average_f32_bounds:
  assumes ne: "servers \<noteq> []" and nn: "loads_nonneg servers" and n: "length servers \<le> 20"
  shows "0 \<le> calculateAverageLoad_f32 servers"
    and "calculateAverageLoad_f32 servers \<le> calculateAverageLoad servers * (21 / 20)"
proof -
  let ?c = "1 + 1 / 2 ^ 24 :: rat"
  let ?n = "of_nat (length servers) :: rat"
  let ?T = "sumLoads_f32 servers 0 0"
  have np: "0 < ?n" using ne by simp
  from sumLoads_f32_bounds [OF _ nn, of 0 0]
  have T: "0 \<le> ?T" "?T \<le> total_load servers * ?c ^ length servers"
    by (simp_all add: total_load_def)
  have S: "0 \<le> total_load servers"
    using drop_loads_nonneg [OF nn, of 0] by (simp add: total_load_def)
  have q: "0 \<le> ?T / ?n" using T(1) np by simp
  show "0 \<le> calculateAverageLoad_f32 servers"
    unfolding calculateAverageLoad_f32_def by (rule round32_nonneg [OF q])
  have "calculateAverageLoad_f32 servers \<le> ?T / ?n * ?c"
    unfolding calculateAverageLoad_f32_def by (rule round32_upper [OF q])
  also have "\<dots> \<le> (total_load servers * ?c ^ length servers) / ?n * ?c"
    using T(2) np by (simp add: divide_right_mono)
  also have "\<dots> = total_load servers / ?n * ?c ^ (length servers + 1)" by simp
  also have "\<dots> \<le> total_load servers / ?n * (21 / 20)"
    by (rule mult_left_mono [OF pow_c_le [OF n]]) (use S np in simp)
  finally show "calculateAverageLoad_f32 servers \<le> calculateAverageLoad servers * (21 / 20)"
    by (simp add: calculateAverageLoad_eq total_load_def)
qed

lemma average_le_mix:
  assumes ne: "servers \<noteq> []"
  shows "of_nat (length servers) * calculateAverageLoad servers
         \<le> of_nat (length servers) * currentLoad (servers ! findMostLoadedServer servers)
           - (currentLoad (servers ! findMostLoadedServer servers)
              - currentLoad (servers ! findLeastLoadedServer servers))"
proof -
  let ?L = "currentLoad (servers ! findMostLoadedServer servers)"
  let ?lo = "findLeastLoadedServer servers"
  let ?l = "currentLoad (servers ! ?lo)"
  let ?s = "addLoad servers ?lo (?L - ?l)"
  have lo: "?lo < length servers" by (rule findLeastLoadedServer_spec(1) [OF ne])
  have "total_load ?s \<le> of_nat (length ?s) * ?L"
  proof (rule total_load_le)
    fix j assume "j < length ?s"
    then show "currentLoad (?s ! j) \<le> ?L"
      using findMostLoadedServer_spec(2) [OF ne, of j] by (simp add: addLoad_nth)
  qed
  then have "total_load servers \<le> of_nat (length servers) * ?L - (?L - ?l)"
    using lo by (simp add: total_load_addLoad)
  moreover have "of_nat (length servers) * calculateAverageLoad servers = total_load servers"
    using ne by (simp add: calculateAverageLoad_eq total_load_def)
  ultimately show ?thesis by simp
qed

text \<open>The rounded mean is at most the greatest load plus the least one.\<close>

lemma average_f32_le:
  assumes ne: "servers \<noteq> []" and nn: "loads_nonneg servers" and n: "length servers \<le> 20"
  shows "calculateAverageLoad_f32 servers
         \<le> currentLoad (servers ! findMostLoadedServer servers)
           + currentLoad (servers ! findLeastLoadedServer servers)"
proof -
  let ?L = "currentLoad (servers ! findMostLoadedServer servers)"
  let ?l = "currentLoad (servers ! findLeastLoadedServer servers)"
  let ?A = "calculateAverageLoad servers"
  let ?n = "of_nat (length servers) :: rat"
  have l0: "0 \<le> ?l" using nn findLeastLoadedServer_spec(1) [OF ne] by (simp add: loads_nonneg_nth)
  have lL: "?l \<le> ?L" using findMostLoadedServer_spec(2) [OF ne findLeastLoadedServer_spec(1) [OF ne]] .
  have n1: "1 \<le> ?n" using ne by (simp add: Suc_le_eq)
  have n20: "?n \<le> 20" using n by (metis of_nat_le_iff of_nat_numeral)
  have m: "?n * ?A \<le> ?n * ?L - (?L - ?l)" by (rule average_le_mix [OF ne])
  have "(?L - ?l) * ?n \<le> (?L - ?l) * 20" using lL n20 by (intro mult_left_mono) simp_all
  then have "?n * (20 * ?A) \<le> ?n * (20 * ?L - (?L - ?l))"
    using m by (simp add: algebra_simps)
  moreover have "0 < ?n" using n1 by linarith
  ultimately have "20 * ?A \<le> 20 * ?L - (?L - ?l)" by (simp only: mult_le_cancel_left_pos)
  then have "?A * (21 / 20) \<le> ?L + ?l" using l0 lL by simp
  then show ?thesis using average_f32_bounds(2) [OF ne nn n] by linarith
qed

subsection \<open>Bounds on the rounded amount\<close>

lemma migration_f32_bounds:
  assumes ne: "servers \<noteq> []" and nn: "loads_nonneg servers" and n: "length servers \<le> 20"
    and rep: "loads_f32 servers"
  shows "migrationAmount_f32 servers \<le> currentLoad (servers ! findMostLoadedServer servers)"
    and "- currentLoad (servers ! findLeastLoadedServer servers) \<le> migrationAmount_f32 servers"
    and "round32 (migrationAmount_f32 servers) = migrationAmount_f32 servers"
proof -
  let ?L = "currentLoad (servers ! findMostLoadedServer servers)"
  let ?l = "currentLoad (servers ! findLeastLoadedServer servers)"
  let ?a = "calculateAverageLoad_f32 servers"
  let ?d = "round32 (?L - ?a)"
  have hi: "findMostLoadedServer servers < length servers"
    and lo: "findLeastLoadedServer servers < length servers"
    using findMostLoadedServer_spec(1) [OF ne] findLeastLoadedServer_spec(1) [OF ne] by simp_all
  have L0: "0 \<le> ?L" and l0: "0 \<le> ?l" using nn hi lo by (simp_all add: loads_nonneg_nth)
  have rL: "round32 ?L = ?L" and rl: "round32 ?l = ?l" using rep hi lo by (simp_all add: loads_f32_nth)
  have a0: "0 \<le> ?a" by (rule average_f32_bounds(1) [OF ne nn n])
  have a1: "?a \<le> ?L + ?l" by (rule average_f32_le [OF ne nn n])
  have d1: "?d \<le> ?L" using round32_mono [of "?L - ?a" ?L] a0 rL by simp
  have "round32 (- ?l) \<le> ?d" by (rule round32_mono) (use a1 in simp)
  then have d2: "- ?l \<le> ?d" by (simp add: round32_minus rl)
  have "?d * (1 / 2) \<le> ?L" using d1 L0 by simp
  then have "round32 (?d * (1 / 2)) \<le> round32 ?L" by (rule round32_mono)
  then show "migrationAmount_f32 servers \<le> ?L" by (simp add: migrationAmount_f32_def rL)
  have "- ?l \<le> ?d * (1 / 2)" using d2 l0 by simp
  then have "round32 (- ?l) \<le> round32 (?d * (1 / 2))" by (rule round32_mono)
  then show "- ?l \<le> migrationAmount_f32 servers"
    by (simp add: migrationAmount_f32_def round32_minus rl)
  show "round32 (migrationAmount_f32 servers) = migrationAmount_f32 servers"
    by (simp add: migrationAmount_f32_def)
qed

subsection \<open>The two steps keep the invariants\<close>

lemma assignTask_f32_length:
  "assignTask_f32 servers heap taskLoad = Some (servers', heap', chosen)
   \<Longrightarrow> length servers' = length servers"
  by (auto simp: assignTask_f32_def Let_def split: option.splits if_splits)

lemma rebalanceLoads_f32_length:
  "rebalanceLoads_f32 servers threshold heap = Some (servers', heap', fired)
   \<Longrightarrow> length servers' = length servers"
  by (auto simp: rebalanceLoads_f32_def Let_def split: if_splits)

lemma assignTask_f32_step:
  assumes wf: "heap_wf heap" and ok: "heap_ok heap" and sync: "in_sync servers heap"
    and ne: "servers \<noteq> []"
  obtains servers' heap' chosen where
    "assignTask_f32 servers heap taskLoad = Some (servers', heap', chosen)"
    and "chosen < length servers"
    and "servers' = addLoad_f32 servers chosen taskLoad"
    and "heap_wf heap'" and "heap_ok heap'" and "in_sync servers' heap'"
proof -
  from in_sync_root_least [OF wf ok sync ne] obtain m heap1 where
    e: "extractMin heap = Some (m, heap1)"
      "serverId m < length servers" "m = entry_of servers (serverId m)"
      "\<And>j. j < length servers \<Longrightarrow> load m \<le> currentLoad (servers ! j)"
      "mset (entries heap1) = mset (entries heap) - {#m#}"
      "heap_ok heap1" "heap_wf heap1" "size_h heap1 = length servers - 1"
      "capacity_h heap1 = capacity_h heap" by metis
  let ?k = "serverId m"
  let ?s = "addLoad_f32 servers ?k taskLoad"
  let ?h = "insertHeap heap1 ?k (currentLoad (?s ! ?k))"
  have a: "assignTask_f32 servers heap taskLoad = Some (?s, ?h, ?k)"
    using e(1,2) by (simp add: assignTask_f32_def Let_def)
  have "0 < length servers" "length servers \<le> capacity_h heap"
    using wf in_sync_size [OF wf sync] ne by (auto simp: heap_wf_def)
  then have cap: "size_h heap1 < capacity_h heap1"
    using e(8,9) by linarith
  have "mset (entries ?h) = add_mset (entry_of ?s ?k) (mset (entries heap1))"
    using insertHeap_entries [OF e(7) cap] by (simp add: entry_of_def)
  also have "\<dots> = add_mset (entry_of ?s ?k) (mset (map (entry_of servers) [0..<length servers]) - {#entry_of servers ?k#})"
    using e(5) e(3) sync by (simp add: in_sync_def)
  also have "\<dots> = mset (map (entry_of ?s) [0..<length servers])"
    by (rule mset_map_change [symmetric, OF e(2)]) (simp add: entry_of_def addLoad_f32_nth)
  finally have s: "in_sync ?s ?h" by (simp add: in_sync_def)
  show thesis
    by (rule that [OF a e(2) refl insertHeap_wf [OF e(7)] insertHeap_ok [OF e(7,6)] s])
qed

lemma addLoad_f32_keeps:
  assumes "loads_nonneg servers" and "loads_f32 servers" and "0 \<le> x"
  shows "loads_nonneg (addLoad_f32 servers i x)" and "loads_f32 (addLoad_f32 servers i x)"
proof -
  show "loads_nonneg (addLoad_f32 servers i x)"
    unfolding loads_nonneg_nth
  proof (intro allI impI)
    fix j assume "j < length (addLoad_f32 servers i x)"
    then have j: "j < length servers" by simp
    then have "0 \<le> currentLoad (servers ! j)" using assms(1) by (simp add: loads_nonneg_nth)
    then show "0 \<le> currentLoad (addLoad_f32 servers i x ! j)"
      using assms(3) j by (auto simp: addLoad_f32_nth intro!: round32_nonneg)
  qed
  show "loads_f32 (addLoad_f32 servers i x)"
    unfolding loads_f32_nth
  proof (intro allI impI)
    fix j assume "j < length (addLoad_f32 servers i x)"
    then have j: "j < length servers" by simp
    then show "round32 (currentLoad (addLoad_f32 servers i x ! j)) = currentLoad (addLoad_f32 servers i x ! j)"
      using assms(2) by (simp add: addLoad_f32_nth loads_f32_nth)
  qed
qed

lemma rebalanceLoads_f32_step:
  assumes wf: "heap_wf heap" and ok: "heap_ok heap" and sync: "in_sync servers heap"
    and ne: "servers \<noteq> []"
  obtains servers' heap' fired where
    "rebalanceLoads_f32 servers threshold heap = Some (servers', heap', fired)"
    and "heap_wf heap'" and "heap_ok heap'" and "in_sync servers' heap'"
    and "loads_f32 servers \<Longrightarrow> loads_f32 servers'"
    and "loads_nonneg servers \<Longrightarrow> loads_f32 servers \<Longrightarrow> length servers \<le> 20
         \<Longrightarrow> loads_nonneg servers'"
proof (cases "imbalance_f32 servers > threshold")
  case False
  show ?thesis
    using that [OF rebalanceLoads_f32_idle [OF ne False] wf ok sync] by simp
next
  case True
  let ?hi = "findMostLoadedServer servers" and ?lo = "findLeastLoadedServer servers"
  let ?m = "migrationAmount_f32 servers"
  let ?s1 = "subLoad_f32 servers ?hi ?m"
  let ?s2 = "addLoad_f32 ?s1 ?lo ?m"
  let ?h1 = "updateHeap heap ?hi (currentLoad (?s2 ! ?hi))"
  let ?h2 = "updateHeap ?h1 ?lo (currentLoad (?s2 ! ?lo))"
  let ?mid = "servers[?hi := (servers ! ?hi)\<lparr>currentLoad := currentLoad (?s2 ! ?hi)\<rparr>]"
  have hi: "?hi < length servers" and lo: "?lo < length servers"
    using findMostLoadedServer_spec(1) [OF ne] findLeastLoadedServer_spec(1) [OF ne] by simp_all
  have r: "rebalanceLoads_f32 servers threshold heap = Some (?s2, ?h2, True)"
    by (rule rebalanceLoads_f32_fire [OF ne True])
  have other: "currentLoad (?s2 ! j) = currentLoad (servers ! j)"
    if "j < length servers" "j \<noteq> ?hi" "j \<noteq> ?lo" for j
    using that by (simp add: addLoad_f32_nth subLoad_f32_nth)
  have at_lo: "currentLoad (?s2 ! ?lo) = round32 (currentLoad (?s1 ! ?lo) + ?m)"
    using lo by (simp add: addLoad_f32_nth)
  have at_hi: "currentLoad (?s2 ! ?hi) = round32 (currentLoad (servers ! ?hi) - ?m)"
    if "?hi \<noteq> ?lo"
    using that hi by (simp add: addLoad_f32_nth subLoad_f32_nth)
  have mid_hi: "currentLoad (?mid ! ?hi) = currentLoad (?s2 ! ?hi)" using hi by simp
  have "in_sync ?mid (updateHeap heap ?hi (currentLoad (?mid ! ?hi)))"
    by (rule updateHeap_sync [OF wf sync hi]) simp_all
  then have s1: "in_sync ?mid ?h1" unfolding mid_hi .
  have wf1: "heap_wf ?h1" and ok1: "heap_ok ?h1"
    using updateHeap_wf [OF wf] updateHeap_ok [OF wf ok] by simp_all
  have sync2: "in_sync ?s2 ?h2"
  proof (rule updateHeap_sync [OF wf1 s1])
    show "?lo < length ?mid" using lo by simp
    show "length ?s2 = length ?mid" by simp
    fix j assume j: "j < length ?mid" "j \<noteq> ?lo"
    show "currentLoad (?s2 ! j) = currentLoad (?mid ! j)"
    proof (cases "j = ?hi")
      case True
      then show ?thesis using hi by simp
    next
      case False
      then show ?thesis using other [of j] j by simp
    qed
  qed
  have wf2: "heap_wf ?h2" and ok2: "heap_ok ?h2"
    using updateHeap_wf [OF wf1] updateHeap_ok [OF wf1 ok1] by simp_all
  have rep2: "loads_f32 ?s2" if rep: "loads_f32 servers"
    unfolding loads_f32_nth
  proof (intro allI impI)
    fix j assume "j < length ?s2"
    then have jl: "j < length servers" by simp
    consider "j = ?lo" | "j = ?hi" "?hi \<noteq> ?lo" | "j \<noteq> ?hi" "j \<noteq> ?lo" by blast
    then show "round32 (currentLoad (?s2 ! j)) = currentLoad (?s2 ! j)"
    proof cases
      case 1
      then show ?thesis unfolding 1 at_lo by simp
    next
      case 2
      then show ?thesis unfolding 2(1) at_hi [OF 2(2)] by simp
    next
      case 3
      then show ?thesis using other [OF jl 3] rep jl by (simp add: loads_f32_nth)
    qed
  qed
  have nn2: "loads_nonneg ?s2"
    if nn: "loads_nonneg servers" and rep: "loads_f32 servers" and n: "length servers \<le> 20"
    unfolding loads_nonneg_nth
  proof (intro allI impI)
    fix j assume "j < length ?s2"
    then have jl: "j < length servers" by simp
    note b = migration_f32_bounds [OF ne nn n rep]
    have L0: "0 \<le> currentLoad (servers ! ?hi)" using nn hi by (simp add: loads_nonneg_nth)
    consider "j = ?lo" | "j = ?hi" "?hi \<noteq> ?lo" | "j \<noteq> ?hi" "j \<noteq> ?lo" by blast
    then show "0 \<le> currentLoad (?s2 ! j)"
    proof cases
      case 1
      have "- ?m \<le> currentLoad (?s1 ! ?lo)"
      proof (cases "?lo = ?hi")
        case True
        have "round32 (- ?m) \<le> round32 (currentLoad (servers ! ?hi) - ?m)"
          by (rule round32_mono) (use L0 in simp)
        then have "- ?m \<le> round32 (currentLoad (servers ! ?hi) - ?m)"
          by (simp add: round32_minus b(3))
        then show ?thesis using hi True by (simp add: subLoad_f32_nth)
      next
        case False
        then show ?thesis using b(2) lo by (simp add: subLoad_f32_nth)
      qed
      then have "0 \<le> currentLoad (?s1 ! ?lo) + ?m" by simp
      then show ?thesis unfolding 1 at_lo by (rule round32_nonneg)
    next
      case 2
      have "0 \<le> currentLoad (servers ! ?hi) - ?m" using b(1) by simp
      then show ?thesis unfolding 2(1) at_hi [OF 2(2)] by (rule round32_nonneg)
    next
      case 3
      then show ?thesis using other [OF jl 3] nn jl by (simp add: loads_nonneg_nth)
    qed
  qed
  show ?thesis
    by (rule that [OF r wf2 ok2 sync2 rep2 nn2])
qed

lemma reachable_f32_invariant:
  "reachable_f32 servers heap \<Longrightarrow> length servers \<le> 20
   \<Longrightarrow> servers \<noteq> [] \<and> heap_wf heap \<and> heap_ok heap \<and> in_sync servers heap
       \<and> loads_nonneg servers \<and> loads_f32 servers"
proof (induction rule: reachable_f32.induct)
  case (start servers)
  have "loads_nonneg servers" "loads_f32 servers"
    using start(2) by (simp_all add: loads_nonneg_def loads_f32_def list_all_length)
  then show ?case using start(1) initHeap_spec [OF start(2)] by simp
next
  case (assign servers heap taskLoad servers' heap' chosen)
  have len: "length servers' = length servers" by (rule assignTask_f32_length [OF assign(3)])
  then have i: "servers \<noteq> []" "heap_wf heap" "heap_ok heap" "in_sync servers heap"
    "loads_nonneg servers" "loads_f32 servers" using assign by simp_all
  from assignTask_f32_step [OF i(2,3,4,1), of taskLoad] obtain s h c where
    a: "assignTask_f32 servers heap taskLoad = Some (s, h, c)" "s = addLoad_f32 servers c taskLoad"
      "heap_wf h" "heap_ok h" "in_sync s h" by metis
  have eq: "servers' = s" "heap' = h" using a(1) assign(3) by simp_all
  have "s \<noteq> []" using i(1) len eq by (metis length_0_conv)
  moreover have "loads_nonneg s" "loads_f32 s"
    using addLoad_f32_keeps [OF i(5,6), of taskLoad c] assign(2) a(2) by simp_all
  ultimately show ?case using a eq by simp
next
  case (rebalance servers heap threshold servers' heap' fired)
  have len: "length servers' = length servers" by (rule rebalanceLoads_f32_length [OF rebalance(2)])
  then have n: "length servers \<le> 20" using rebalance by simp
  then have i: "servers \<noteq> []" "heap_wf heap" "heap_ok heap" "in_sync servers heap"
    "loads_nonneg servers" "loads_f32 servers" using rebalance by simp_all
  from rebalanceLoads_f32_step [OF i(2,3,4,1), of threshold] obtain s h f where
    a: "rebalanceLoads_f32 servers threshold heap = Some (s, h, f)"
      "heap_wf h" "heap_ok h" "in_sync s h" "loads_f32 s" "loads_nonneg s"
    using i(5,6) n by metis
  have eq: "servers' = s" "heap' = h" using a(1) rebalance(2) by simp_all
  have "s \<noteq> []" using i(1) len eq by (metis length_0_conv)
  then show ?case using a eq by simp
qed

text \<open>
  Claim C9, as amended. Binary32 arithmetic, at most twenty servers. In every state a run
  can reach from all loads 0, by assignments of positive task loads and by rebalancing, no
  server has a negative load. The amount a rebalance would migrate is at most the load of
  the most-loaded server and at least minus the load of the least-loaded one (the exact
  value of \<^verbatim>\<open>(mostLoaded.currentLoad - averageLoad) * 0.5\<close> on these loads is at least 0;
  the rounded mean can exceed the greatest load, and then the computed amount is negative).
  Both steps go through from there (the assignment finds a server in range, the rebalance
  finds a non-empty registry) and leave every load at 0 or above, so the run never leaves
  these states.
\<close>

theorem loads_never_negative:
  assumes "reachable_f32 servers heap" and "length servers \<le> 20"
  shows "loads_nonneg servers
       \<and> migrationAmount_f32 servers \<le> currentLoad (servers ! findMostLoadedServer servers)
       \<and> - currentLoad (servers ! findLeastLoadedServer servers) \<le> migrationAmount_f32 servers
       \<and> 0 \<le> migrationAmount servers
       \<and> (\<exists>servers' heap' chosen.
             assignTask_f32 servers heap taskLoad = Some (servers', heap', chosen)
             \<and> (0 < taskLoad \<longrightarrow> loads_nonneg servers'))
       \<and> (\<exists>servers' heap' fired.
             rebalanceLoads_f32 servers threshold heap = Some (servers', heap', fired)
             \<and> loads_nonneg servers')"
proof -
  from reachable_f32_invariant [OF assms] have i: "servers \<noteq> []" "heap_wf heap" "heap_ok heap"
    "in_sync servers heap" "loads_nonneg servers" "loads_f32 servers" by simp_all
  from assignTask_f32_step [OF i(2,3,4,1), of taskLoad] obtain s h c where
    a: "assignTask_f32 servers heap taskLoad = Some (s, h, c)" "s = addLoad_f32 servers c taskLoad"
    by metis
  have an: "0 < taskLoad \<longrightarrow> loads_nonneg s"
    using addLoad_f32_keeps(1) [OF i(5,6), of taskLoad c] a(2) by simp
  from rebalanceLoads_f32_step [OF i(2,3,4,1), of threshold] obtain s' h' f where
    r: "rebalanceLoads_f32 servers threshold heap = Some (s', h', f)" "loads_nonneg s'"
    using i(5,6) assms(2) by metis
  note b = migration_f32_bounds [OF i(1,5) assms(2) i(6)]
  show ?thesis
    using i(5) b(1,2) migration_nonneg [OF i(1)] a(1) an r by blast
qed

subsection \<open>Two runs in binary32 arithmetic\<close>

lemma close_first:
  "assignTask_f32 fleet_close_start (initHeap 3) (16739609 / 1048576)
   = Some ([\<lparr>id_srv = 0, capacity = 200, currentLoad = 16739609 / 1048576\<rparr>,
            \<lparr>id_srv = 1, capacity = 50, currentLoad = 0\<rparr>,
            \<lparr>id_srv = 2, capacity = 100, currentLoad = 0\<rparr>],
           \<lparr>arr = [\<lparr>serverId = 2, load = 0\<rparr>, \<lparr>serverId = 1, load = 0\<rparr>,
                   \<lparr>serverId = 0, load = 16739609 / 1048576\<rparr>],
            size_h = 3, capacity_h = 3\<rparr>, 0)"
  by code_simp

lemma close_second:
  "assignTask_f32 [\<lparr>id_srv = 0, capacity = 200, currentLoad = 16739609 / 1048576\<rparr>,
                   \<lparr>id_srv = 1, capacity = 50, currentLoad = 0\<rparr>,
                   \<lparr>id_srv = 2, capacity = 100, currentLoad = 0\<rparr>]
                  \<lparr>arr = [\<lparr>serverId = 2, load = 0\<rparr>, \<lparr>serverId = 1, load = 0\<rparr>,
                          \<lparr>serverId = 0, load = 16739609 / 1048576\<rparr>],
                   size_h = 3, capacity_h = 3\<rparr> (16739610 / 1048576)
   = Some ([\<lparr>id_srv = 0, capacity = 200, currentLoad = 16739609 / 1048576\<rparr>,
            \<lparr>id_srv = 1, capacity = 50, currentLoad = 0\<rparr>,
            \<lparr>id_srv = 2, capacity = 100, currentLoad = 16739610 / 1048576\<rparr>],
           \<lparr>arr = [\<lparr>serverId = 1, load = 0\<rparr>, \<lparr>serverId = 0, load = 16739609 / 1048576\<rparr>,
                   \<lparr>serverId = 2, load = 16739610 / 1048576\<rparr>],
            size_h = 3, capacity_h = 3\<rparr>, 2)"
  by code_simp

lemma close_third:
  "assignTask_f32 [\<lparr>id_srv = 0, capacity = 200, currentLoad = 16739609 / 1048576\<rparr>,
                   \<lparr>id_srv = 1, capacity = 50, currentLoad = 0\<rparr>,
                   \<lparr>id_srv = 2, capacity = 100, currentLoad = 16739610 / 1048576\<rparr>]
                  \<lparr>arr = [\<lparr>serverId = 1, load = 0\<rparr>, \<lparr>serverId = 0, load = 16739609 / 1048576\<rparr>,
                          \<lparr>serverId = 2, load = 16739610 / 1048576\<rparr>],
                   size_h = 3, capacity_h = 3\<rparr> (16739610 / 1048576)
   = Some (fleet_close, heap_close, 1)"
  by code_simp

lemma close_reachable: "reachable_f32 fleet_close heap_close"
proof -
  have l: "length fleet_close_start = 3" by (simp add: fleet_close_start_def)
  have "reachable_f32 fleet_close_start (initHeap (length fleet_close_start))"
    by (rule reachable_f32.start) (simp_all add: fleet_close_start_def)
  then have "reachable_f32 fleet_close_start (initHeap 3)" unfolding l .
  from reachable_f32.assign [OF this _ close_first]
    reachable_f32.assign [OF _ _ close_second] reachable_f32.assign [OF _ _ close_third]
  show ?thesis by simp
qed

lemma close_rebalance:
  "rebalanceLoads_f32 fleet_close 20 heap_close = Some (fleet_close_after, heap_close_after, True)"
  by code_simp

lemma close_values:
  "migrationAmount_f32 fleet_close = - (1 / 2097152)"
  "calculateAverageLoad_f32 fleet_close = 16739611 / 1048576"
  "findMostLoadedServer fleet_close = 1" "findLeastLoadedServer fleet_close = 0"
  by code_simp+

lemma assign_first_f32: "assignTask_f32 fleet3 (initHeap 3) 10 = Some (fleet3_one, heap3_one, 0)"
  by code_simp

lemma fleet3_one_f32: "migrationAmount_f32 fleet3_one = 6990507 / 2097152"
  by code_simp

theorem loads_never_negative_witness:
  "reachable_f32 fleet3_one heap3_one \<and> length fleet3_one \<le> 20
   \<and> loads_nonneg fleet3_one
   \<and> migrationAmount_f32 fleet3_one = 6990507 / 2097152
   \<and> migrationAmount_f32 fleet3_one \<le> currentLoad (fleet3_one ! findMostLoadedServer fleet3_one)
   \<and> - currentLoad (fleet3_one ! findLeastLoadedServer fleet3_one) \<le> migrationAmount_f32 fleet3_one
   \<and> 0 \<le> migrationAmount fleet3_one
   \<and> (\<exists>servers' heap' chosen. assignTask_f32 fleet3_one heap3_one 10 = Some (servers', heap', chosen)
          \<and> loads_nonneg servers')
   \<and> (\<exists>servers' heap' fired. rebalanceLoads_f32 fleet3_one 5 heap3_one = Some (servers', heap', fired)
          \<and> loads_nonneg servers')"
proof -
  have l: "length fleet3 = 3" by (simp add: fleet3_def)
  have n: "length fleet3_one \<le> 20" by (simp add: fleet3_one_def)
  have "reachable_f32 fleet3 (initHeap (length fleet3))"
    by (rule reachable_f32.start) (simp_all add: fleet3_def)
  then have "reachable_f32 fleet3 (initHeap 3)" unfolding l .
  then have r: "reachable_f32 fleet3_one heap3_one"
    by (rule reachable_f32.assign [OF _ _ assign_first_f32]) simp
  show ?thesis
    using loads_never_negative [OF r n, of 10 5] r n fleet3_one_f32 by simp
qed

text \<open>
  Claim C9 as stated fails. The three servers above are in a reachable state; the rounded
  sum of their loads is \<open>50218832 / 2^20\<close> and the rounded mean \<open>16739611 / 2^20\<close>, above
  the greatest load \<open>16739610 / 2^20\<close>. The imbalance of the percentages is about 23.9, so
  a rebalance at threshold 20 fires, with the migration amount \<open>- 1 / 2^21\<close>: the
  most-loaded server 1 keeps its load and the least-loaded server 0 loses load.
\<close>

theorem loads_never_negative_counterexample:
  "reachable_f32 fleet_close heap_close \<and> length fleet_close = 3
   \<and> calculateAverageLoad_f32 fleet_close = 16739611 / 1048576
   \<and> currentLoad (fleet_close ! findMostLoadedServer fleet_close) = 16739610 / 1048576
   \<and> migrationAmount_f32 fleet_close = - (1 / 2097152)
   \<and> migrationAmount_f32 fleet_close < 0
   \<and> rebalanceLoads_f32 fleet_close 20 heap_close = Some (fleet_close_after, heap_close_after, True)
   \<and> findLeastLoadedServer fleet_close = 0
   \<and> currentLoad (fleet_close_after ! 0) < currentLoad (fleet_close ! 0)"
proof -
  have "currentLoad (fleet_close ! 1) = 16739610 / 1048576"
    "currentLoad (fleet_close_after ! 0) < currentLoad (fleet_close ! 0)"
    "length fleet_close = 3"
    by (simp_all add: fleet_close_def fleet_close_after_def)
  then show ?thesis
    using close_reachable close_rebalance close_values by simp
qed

section \<open>The three-server scenario\<close>

lemmas run_eval = initHeap_def seedHeap.simps createMinHeap_def insertHeap_def extractMin_def
  heapifyUp.simps heapifyDown.simps swap_nodes_def assignTask_def addLoad_def Let_def

lemma initHeap3:
  "initHeap 3 = \<lparr>arr = [\<lparr>serverId = 0, load = 0\<rparr>, \<lparr>serverId = 1, load = 0\<rparr>,
                         \<lparr>serverId = 2, load = 0\<rparr>], size_h = 3, capacity_h = 3\<rparr>"
  by (simp add: run_eval numeral_3_eq_3)

lemma assign_first: "assignTask fleet3 (initHeap 3) 10 = Some (fleet3_one, heap3_one, 0)"
  by (simp add: initHeap3) (simp add: fleet3_def fleet3_one_def heap3_one_def run_eval)

lemma assign_second: "assignTask fleet3_one heap3_one 10 = Some (fleet3_two, heap3_two, 2)"
  by (simp add: fleet3_one_def heap3_one_def fleet3_two_def heap3_two_def run_eval)

lemma assign_third: "assignTask fleet3_two heap3_two 10 = Some (fleet3_done, heap3_done, 1)"
  by (simp add: fleet3_two_def heap3_two_def fleet3_done_def heap3_done_def run_eval)

lemma assignAll_no_rebalance:
  assumes "(tasksAssigned + 1) mod interval \<noteq> 0"
    and "assignTask servers heap taskLoad = Some (servers1, heap1, chosen)"
  shows "assignAll servers heap threshold interval tasksAssigned (taskLoad # rest)
         = map_option (\<lambda>(s, h, cs). (s, h, chosen # cs))
             (assignAll servers1 heap1 threshold interval (tasksAssigned + 1) rest)"
  using assms by simp

lemma three_tasks_run:
  assumes "3 < interval"
  shows "assignAll fleet3 (initHeap 3) threshold interval 0 [10, 10, 10]
           = Some (fleet3_done, heap3_done, [0, 2, 1])"
proof -
  have m: "(0 + 1) mod interval \<noteq> 0" "(0 + 1 + 1) mod interval \<noteq> 0"
    "(0 + 1 + 1 + 1) mod interval \<noteq> 0"
    using assms by simp_all
  have 3: "assignAll fleet3_two heap3_two threshold interval (0 + 1 + 1) [10]
           = Some (fleet3_done, heap3_done, [1])"
    unfolding assignAll_no_rebalance [OF m(3) assign_third] by simp
  have 2: "assignAll fleet3_one heap3_one threshold interval (0 + 1) [10, 10]
           = Some (fleet3_done, heap3_done, [2, 1])"
    unfolding assignAll_no_rebalance [OF m(2) assign_second] 3 by simp
  show ?thesis
    unfolding assignAll_no_rebalance [OF m(1) assign_first] 2 by simp
qed

text \<open>
  Claim C7, as amended. Three servers of capacity 100 at load 0, the heap seeded with them,
  three tasks of load 10 and a rebalance interval above 3 (any threshold): the tasks go to
  servers 0, 2 and 1 in this order, so each server receives exactly one task; every server
  ends at load 10, the loads sum to 30, and each load percentage is load/100*100 = 10.
\<close>

theorem three_tasks_three_servers:
  assumes "3 < interval"
  shows "assignAll fleet3 (initHeap 3) threshold interval 0 [10, 10, 10]
           = Some (fleet3_done, heap3_done, [0, 2, 1])
       \<and> mset [0, 2, 1] = mset [0..<length fleet3]
       \<and> map currentLoad fleet3_done = [10, 10, 10]
       \<and> sum_list (map currentLoad fleet3_done) = 30
       \<and> map getLoadPercentage fleet3_done = map (\<lambda>s. currentLoad s / 100 * 100) fleet3_done
       \<and> map getLoadPercentage fleet3_done = [10, 10, 10]"
proof -
  have "assignAll fleet3 (initHeap 3) threshold interval 0 [10, 10, 10]
           = Some (fleet3_done, heap3_done, [0, 2, 1])"
    by (rule three_tasks_run [OF assms])
  then show ?thesis
    by (simp add: fleet3_def fleet3_done_def getLoadPercentage_def upt_rec)
qed

theorem three_tasks_three_servers_witness:
  "(3::nat) < 5
   \<and> assignAll fleet3 (initHeap 3) 20 5 0 [10, 10, 10] = Some (fleet3_done, heap3_done, [0, 2, 1])
   \<and> map currentLoad fleet3_done = [10, 10, 10]"
  using three_tasks_three_servers [of 5 20] by simp

text \<open>
  Claim C7 as stated fails on its middle part: the loads after the run are not a
  permutation of [10, 0, 0].
\<close>

theorem three_tasks_three_servers_counterexample:
  "\<exists>servers' heap' chosen.
      assignAll fleet3 (initHeap 3) 20 5 0 [10, 10, 10] = Some (servers', heap', chosen)
    \<and> mset (map currentLoad servers') \<noteq> mset [10, 0, 0]"
proof -
  have "assignAll fleet3 (initHeap 3) 20 5 0 [10, 10, 10]
           = Some (fleet3_done, heap3_done, [0, 2, 1])"
    by (rule three_tasks_run) simp
  moreover have "count (mset (map currentLoad fleet3_done)) 0 \<noteq> count (mset [10, 0, 0 :: rat]) 0"
    by (simp add: fleet3_done_def)
  then have "mset (map currentLoad fleet3_done) \<noteq> mset [10, 0, 0]"
    by metis
  ultimately show ?thesis by blast
qed

end
